theory Spec2Isabelle
  imports Main "HOL-Library.Sublist"
begin

text \<open>
  A model of \<^verbatim>\<open>delete-react-zombies\<close> (\<^verbatim>\<open>src/index.ts\<close>): the tool walks a
  directory tree, extracts one component from each source file that declares one, finds
  the components whose name no scanned file references, and deletes their files, all
  at once or one confirmed question at a time. Each function of \<^verbatim>\<open>index.ts\<close> is a
  function of the same name here. What the program does to its surroundings (the calls
  to the file system, the console, the questions, the deletions) is recorded in order;
  what it reads from them (flags, helpers, parser, file system, the user's answers) is a
  parameter.
\<close>

section \<open>JavaScript primitives\<close>

text \<open>
  \<^verbatim>\<open>String.prototype.includes\<close>: \<open>includesStr s sub\<close> is \<^verbatim>\<open>s.includes(sub)\<close>,
  true when \<open>sub\<close> occurs in \<open>s\<close> as a contiguous run of characters.
\<close>

primrec includesStr :: "string \<Rightarrow> string \<Rightarrow> bool" where
  "includesStr [] sub = (sub = [])"
| "includesStr (c # s) sub = (prefix sub (c # s) \<or> includesStr s sub)"

text \<open>
  JavaScript truthiness of an optional string: \<^verbatim>\<open>undefined\<close> and the empty string
  are falsy, every other string is truthy. \<open>orElse v d\<close> is \<^verbatim>\<open>v || d\<close>.
\<close>

definition truthy :: "string option \<Rightarrow> bool" where
  "truthy v = (case v of None \<Rightarrow> False | Some s \<Rightarrow> s \<noteq> [])"

definition orElse :: "string option \<Rightarrow> string \<Rightarrow> string" where
  "orElse v d = (if truthy v then the v else d)"

text \<open>
  A number inside a template literal, \<^verbatim>\<open>`${components.length}`\<close>: its decimal digits.
\<close>

fun toString :: "nat \<Rightarrow> string" where
  "toString n =
     (if n < 10 then [''0123456789'' ! n]
      else toString (n div 10) @ [''0123456789'' ! (n mod 10)])"

declare toString.simps [simp del]

section \<open>Data model\<close>

text \<open>
  The tool's only entity: a component found in a source file
  (\<^verbatim>\<open>{ name, path, content }\<close> in \<^verbatim>\<open>src/index.ts\<close>).
\<close>

record Component =
  name :: string
  path :: string
  content :: string

text \<open>
  The helpers imported from \<^verbatim>\<open>./utils\<close> that the functions of
  \<^verbatim>\<open>index.ts\<close> read but never define. They are parameters of the model: every
  theorem below holds for every choice of them.
\<close>

record utils =
  isImported :: "string \<Rightarrow> string \<Rightarrow> bool"
  isAvailableFile :: "string \<Rightarrow> bool"
  baseUrl :: string

text \<open>
  The resolved command-line flags (\<^verbatim>\<open>argv\<close> of yargs). \<^verbatim>\<open>args.path\<close> is a
  string or absent; the other flags are booleans.
\<close>

record args =
  args_path :: "string option"
  args_absoluteImports :: bool
  args_ignoreNodeModules :: bool
  args_force :: bool
  args_verbose :: bool

text \<open>
  The file system as Node's \<^verbatim>\<open>fs\<close> module shows it to the program: each call
  returns a value or throws an error with a code. \<open>isDirectory fs p\<close> stands for
  \<^verbatim>\<open>fs.statSync(p).isDirectory()\<close>.
\<close>

datatype fs_error = ENOENT | ENOTDIR | EISDIR | EACCES | OtherError string

record filesystem =
  readdirSync :: "string \<Rightarrow> fs_error + string list"
  isDirectory :: "string \<Rightarrow> fs_error + bool"
  readFileSync :: "string \<Rightarrow> fs_error + string"

text \<open>
  \<^verbatim>\<open>reactDocs.parse\<close> (react-docgen) throws on a file it cannot parse, and otherwise
  returns a documentation object whose \<^verbatim>\<open>displayName\<close> may be missing.
\<close>

datatype parsed = ParseError | Documentation "string option"

text \<open>
  What a run does to its surroundings, in order: the calls to \<^verbatim>\<open>fs\<close>, the lines
  written with \<^verbatim>\<open>console.log\<close>, the spinner, the questions asked with
  \<^verbatim>\<open>prompt\<close>, and the files handed to the deletion helpers.
\<close>

datatype effect =
    Readdir string
  | Stat string
  | ReadFile string
  | ConsoleLog string
  | SpinnerStart string
  | SpinnerStop
  | Prompt string
  | Delete string

text \<open>
  Everything a run reads from its surroundings: the flags, the helpers of
  \<^verbatim>\<open>./utils\<close>, the parser, \<^verbatim>\<open>process.cwd()\<close>, and the user, who answers a
  confirmation prompt knowing everything that has happened so far, the question included.
\<close>

record env =
  args :: args
  utils :: utils
  reactDocs_parse :: "string \<Rightarrow> parsed"
  cwd :: string
  confirm :: "effect list \<Rightarrow> bool"

text \<open>
  How a call ends: it returns a value, it throws, or (for the recursive tree walk only)
  the recursion is deeper than the fuel it was given.
\<close>

datatype 'a outcome = Returned 'a | Thrown fs_error | OutOfFuel

text \<open>The state a run changes: the files on disk and the effects so far.\<close>

record world =
  disk :: filesystem
  effects :: "effect list"

definition say :: "effect \<Rightarrow> world \<Rightarrow> world" where
  "say ev w = w\<lparr>effects := effects w @ [ev]\<rparr>"

section \<open>Component extractor and tree walker\<close>

text \<open>
  \<^verbatim>\<open>getComponentName\<close>: the \<^verbatim>\<open>catch\<close> turns a parse failure into the empty
  string, and \<^verbatim>\<open>parsed.displayName || ''\<close> does the same for a missing or empty name.
\<close>

definition getComponentName :: "env \<Rightarrow> string \<Rightarrow> string" where
  "getComponentName e fileContent =
     (case reactDocs_parse e fileContent of
        ParseError \<Rightarrow> []
      | Documentation displayName \<Rightarrow> orElse displayName [])"

text \<open>
  The first line of \<^verbatim>\<open>getComponentsFromDir\<close>: the directory that is listed.
\<close>

definition useFullPath :: "env \<Rightarrow> string \<Rightarrow> bool \<Rightarrow> string" where
  "useFullPath e p isSubfolder =
     (if \<not> truthy (args_path (args e)) \<and> args_absoluteImports (args e) \<and> \<not> isSubfolder
      then p @ ''/'' @ baseUrl (utils e) else p)"

text \<open>
  A walk is the list of file-system calls it made, in order, and how it ended. The
  callback of \<^verbatim>\<open>files.reduce\<close> is \<open>reduceCallback\<close>; \<open>recurse\<close> is the nested
  call \<^verbatim>\<open>getComponentsFromDir(filePath, true)\<close>. An exception thrown inside the
  callback ends the \<^verbatim>\<open>reduce\<close>: once the state is not \<open>Returned\<close>, the remaining
  entries are not visited.
\<close>

type_synonym walk = "effect list \<times> Component list outcome"

definition reduceCallback ::
  "env \<Rightarrow> filesystem \<Rightarrow> (string \<Rightarrow> walk) \<Rightarrow> string \<Rightarrow> walk \<Rightarrow> string \<Rightarrow> walk" where
  "reduceCallback e fs recurse dir st fileName =
     (case st of
        (tr, Returned acc) \<Rightarrow>
          (let filePath = dir @ ''/'' @ fileName in
           case isDirectory fs filePath of
             Inl err \<Rightarrow> (tr @ [Stat filePath], Thrown err)
           | Inr isDir \<Rightarrow>
               if isDir then
                 (if args_ignoreNodeModules (args e) \<and> includesStr fileName ''node_modules''
                  then (tr @ [Stat filePath], Returned acc)
                  else
                    (case recurse filePath of
                       (tr', Returned cs) \<Rightarrow> (tr @ [Stat filePath] @ tr', Returned (acc @ cs))
                     | (tr', Thrown err) \<Rightarrow> (tr @ [Stat filePath] @ tr', Thrown err)
                     | (tr', OutOfFuel) \<Rightarrow> (tr @ [Stat filePath] @ tr', OutOfFuel)))
               else if isAvailableFile (utils e) fileName then
                 (case readFileSync fs filePath of
                    Inl err \<Rightarrow> (tr @ [Stat filePath, ReadFile filePath], Thrown err)
                  | Inr fileContent \<Rightarrow>
                      (let componentName = getComponentName e fileContent in
                       if componentName = [] then
                         (tr @ [Stat filePath, ReadFile filePath], Returned acc)
                       else
                         (tr @ [Stat filePath, ReadFile filePath],
                          Returned (acc @ [\<lparr>name = componentName, path = filePath,
                                                content = fileContent\<rparr>]))))
               else (tr @ [Stat filePath], Returned acc))
      | _ \<Rightarrow> st)"

text \<open>
  \<^verbatim>\<open>getComponentsFromDir\<close>. The recursion follows the directory tree, which the
  program does not bound; \<open>fuel\<close> bounds the depth of nested calls.
\<close>

fun getComponentsFromDir :: "env \<Rightarrow> filesystem \<Rightarrow> nat \<Rightarrow> string \<Rightarrow> bool \<Rightarrow> walk" where
  "getComponentsFromDir e fs 0 p isSubfolder = ([], OutOfFuel)"
| "getComponentsFromDir e fs (Suc fuel) p isSubfolder =
     (let whereToLook = useFullPath e p isSubfolder in
      case readdirSync fs whereToLook of
        Inl err \<Rightarrow> ([Readdir whereToLook], Thrown err)
      | Inr files \<Rightarrow>
          foldl (reduceCallback e fs (\<lambda>filePath. getComponentsFromDir e fs fuel filePath True)
                   whereToLook)
            ([Readdir whereToLook], Returned []) files)"

section \<open>Usage resolver\<close>

text \<open>
  \<^verbatim>\<open>verifyImport\<close>: the \<^verbatim>\<open>for ... of\<close> loop with its early
  \<^verbatim>\<open>return;\<close> (JavaScript's \<^verbatim>\<open>undefined\<close> is \<open>None\<close>).
\<close>

fun verifyImport :: "utils \<Rightarrow> Component \<Rightarrow> Component list \<Rightarrow> Component option" where
  "verifyImport u component [] = Some component"
| "verifyImport u component (file # listOfComponents) =
     (if isImported u (name component) (content file) then None
      else verifyImport u component listOfComponents)"

text \<open>
  \<^verbatim>\<open>getUnusedComponents\<close>: a left-to-right \<^verbatim>\<open>reduce\<close> from the empty list;
  \<^verbatim>\<open>[...acc, x]\<close> appends.
\<close>

definition getUnusedComponents :: "utils \<Rightarrow> Component list \<Rightarrow> Component list" where
  "getUnusedComponents u components =
     foldl (\<lambda>acc curr.
              (case verifyImport u curr components of
                 None \<Rightarrow> acc
               | Some componentUnUsed \<Rightarrow> acc @ [componentUnUsed]))
       [] components"

section \<open>Deletion workflow\<close>

text \<open>
  Modelled from the spec: the file-deletion capability behind \<^verbatim>\<open>deleteComponent\<close>
  and \<^verbatim>\<open>deleteComponents\<close> of \<^verbatim>\<open>./utils\<close>, which is not under
  \<^verbatim>\<open>src/\<close> ("given a file path, remove it or report failure"). Removing a regular file
  makes every later call on its path fail and takes its name out of the listing of its
  directory; a path that is missing or a directory is a failure, and nothing changes.
\<close>

definition deleteFile :: "string \<Rightarrow> filesystem \<Rightarrow> fs_error + filesystem" where
  "deleteFile p fs =
     (case isDirectory fs p of
        Inl err \<Rightarrow> Inl err
      | Inr isDir \<Rightarrow>
          if isDir then Inl EISDIR
          else Inr (fs\<lparr>readdirSync :=
                         (\<lambda>d. case readdirSync fs d of
                                 Inl err \<Rightarrow> Inl err
                               | Inr files \<Rightarrow> Inr (filter (\<lambda>f. d @ ''/'' @ f \<noteq> p) files)),
                       isDirectory := (isDirectory fs)(p := Inl ENOENT),
                       readFileSync := (readFileSync fs)(p := Inl ENOENT)\<rparr>))"

text \<open>
  Modelled from the spec: \<^verbatim>\<open>deleteComponent\<close> of \<^verbatim>\<open>./utils\<close> (not under
  \<^verbatim>\<open>src/\<close>) hands the file of one component to the deletion capability. The spec
  leaves the handling of a failed deletion open and advises to treat it as fatal: a
  failure is thrown.
\<close>

definition deleteComponent :: "Component \<Rightarrow> world \<Rightarrow> world \<times> unit outcome" where
  "deleteComponent component w =
     (case deleteFile (path component) (disk w) of
        Inl err \<Rightarrow> (say (Delete (path component)) w, Thrown err)
      | Inr fs' \<Rightarrow> (say (Delete (path component)) (w\<lparr>disk := fs'\<rparr>), Returned ()))"

text \<open>
  Modelled from the spec: \<^verbatim>\<open>deleteComponents\<close> of \<^verbatim>\<open>./utils\<close> (not under
  \<^verbatim>\<open>src/\<close>), the forced mode: it "deletes every unused component's file without
  confirmation", in list order, and a failed deletion ends the batch.
\<close>

fun deleteComponents :: "Component list \<Rightarrow> world \<Rightarrow> world \<times> unit outcome" where
  "deleteComponents [] w = (w, Returned ())"
| "deleteComponents (component # components) w =
     (case deleteComponent component w of
        (w', Returned u) \<Rightarrow> deleteComponents components w'
      | failed \<Rightarrow> failed)"

text \<open>
  \<^verbatim>\<open>confirmDelete\<close>: one question per component, in list order; the answer is the
  user's, given once the question is on the screen.
\<close>

fun confirmDelete :: "env \<Rightarrow> Component list \<Rightarrow> world \<Rightarrow> world \<times> unit outcome" where
  "confirmDelete e [] w = (w, Returned ())"
| "confirmDelete e (component # components) w =
     (let w1 = (if args_verbose (args e) then say (ConsoleLog (content component)) w else w);
          w2 = say (Prompt (''Do you want to delete '' @ path component @ '' ?'')) w1;
          answer = confirm e (effects w2)
      in if answer then
           (case deleteComponent component w2 of
              (w3, Returned u) \<Rightarrow> confirmDelete e components w3
            | failed \<Rightarrow> failed)
         else confirmDelete e components w2)"

text \<open>
  The body of the program, the \<^verbatim>\<open>async\<close> function called at the end of
  \<^verbatim>\<open>index.ts\<close>. An exception of the tree walk leaves it at once.
\<close>

definition main :: "env \<Rightarrow> nat \<Rightarrow> world \<Rightarrow> world \<times> unit outcome" where
  "main e fuel w =
     (let w1 =
            (if args_verbose (args e) \<and> args_absoluteImports (args e) then
               (if truthy (args_path (args e)) then
                  say (ConsoleLog (''--absoluteImports AND --path conflict.'' @ [CHR 0x09] @
                         '' Will use path: '' @ [CHR 0x27] @ the (args_path (args e)) @ [CHR 0x27] @
                         '' instead of absoluteImports'')) w
                else
                  say (ConsoleLog (''--absoluteImports. '' @ [CHR 0x09] @ ''Will use baseUrl: '' @
                         [CHR 0x27] @ baseUrl (utils e) @ [CHR 0x27])) w)
             else w);
          w2 = say (SpinnerStart ''Searching zombie components'') w1;
          p = orElse (args_path (args e)) (cwd e)
      in case getComponentsFromDir e (disk w2) fuel p False of
           (tr, Returned components) \<Rightarrow>
             (let w3 = say (ConsoleLog (''\<newline>\<newline>'' @ toString (length components) @
                              '' components found! \<newline>''))
                         (w2\<lparr>effects := effects w2 @ tr\<rparr>);
                  zombieComponents = getUnusedComponents (utils e) components;
                  w4 = say (ConsoleLog (toString (length zombieComponents) @
                              '' unused components found! \<newline>''))
                         (say SpinnerStop w3)
              in if args_force (args e) then deleteComponents zombieComponents w4
                 else
                   (case confirmDelete e zombieComponents w4 of
                      (w5, Returned u) \<Rightarrow> (say (ConsoleLog ''\<newline>Bye bye!'') w5, Returned ())
                    | failed \<Rightarrow> failed))
         | (tr, Thrown err) \<Rightarrow> (w2\<lparr>effects := effects w2 @ tr\<rparr>, Thrown err)
         | (tr, OutOfFuel) \<Rightarrow> (w2\<lparr>effects := effects w2 @ tr\<rparr>, OutOfFuel))"

section \<open>Vocabulary of the properties\<close>

text \<open>
  The wording of claim C1, kept apart from the code: the component at position \<open>i\<close> is
  referenced from the content of a component at another position of the list.
\<close>

definition referencedByOther :: "utils \<Rightarrow> Component list \<Rightarrow> nat \<Rightarrow> bool" where
  "referencedByOther u cs i =
     (\<exists>j < length cs. j \<noteq> i \<and> isImported u (name (cs ! i)) (content (cs ! j)))"

text \<open>
  Paths below a directory: \<open>joinPath dir [a, b, c]\<close> is \<^verbatim>\<open>dir/a/b/c\<close>, built as
  the walk builds it, one \<^verbatim>\<open>`${useFullPath}/${fileName}`\<close> at a time.
\<close>

fun joinPath :: "string \<Rightarrow> string list \<Rightarrow> string" where
  "joinPath dir [] = dir"
| "joinPath dir (fileName # rest) = joinPath (dir @ ''/'' @ fileName) rest"

text \<open>The names that the listings of a file system contain.\<close>

definition entryNames :: "filesystem \<Rightarrow> string set" where
  "entryNames fs = {f. \<exists>d files. readdirSync fs d = Inr files \<and> f \<in> set files}"

text \<open>The path a file-system call is made on.\<close>

fun effectPath :: "effect \<Rightarrow> string option" where
  "effectPath (Readdir p) = Some p"
| "effectPath (Stat p) = Some p"
| "effectPath (ReadFile p) = Some p"
| "effectPath _ = None"

text \<open>
  \<open>reached fs root q\<close>: the path \<open>q\<close> lies below \<open>root\<close> along entry names, and no
  directory on the way from \<open>root\<close> to \<open>q\<close> has the vendor marker in its name.
\<close>

definition reached :: "filesystem \<Rightarrow> string \<Rightarrow> string \<Rightarrow> bool" where
  "reached fs root q =
     (\<exists>segs. q = joinPath root segs \<and> set segs \<subseteq> entryNames fs \<and>
        (\<forall>d \<in> set (butlast segs). \<not> includesStr d ''node_modules''))"

definition cleanWalk :: "filesystem \<Rightarrow> string \<Rightarrow> walk \<Rightarrow> bool" where
  "cleanWalk fs root w =
     ((\<forall>ev \<in> set (fst w). \<forall>q. effectPath ev = Some q \<longrightarrow> reached fs root q) \<and>
      (\<forall>cs. snd w = Returned cs \<longrightarrow> (\<forall>c \<in> set cs. reached fs root (path c))))"

text \<open>The error a file-system call throws, if it throws.\<close>

fun failure :: "filesystem \<Rightarrow> effect \<Rightarrow> fs_error option" where
  "failure fs (Readdir p) = (case readdirSync fs p of Inl err \<Rightarrow> Some err | Inr files \<Rightarrow> None)"
| "failure fs (Stat p) = (case isDirectory fs p of Inl err \<Rightarrow> Some err | Inr isDir \<Rightarrow> None)"
| "failure fs (ReadFile p) =
     (case readFileSync fs p of Inl err \<Rightarrow> Some err | Inr fileContent \<Rightarrow> None)"
| "failure fs _ = None"

text \<open>
  A walk fails fast: when it throws, the error is that of its last call and every call
  before succeeded; when it does not throw, every call succeeded.
\<close>

definition failFast :: "filesystem \<Rightarrow> walk \<Rightarrow> bool" where
  "failFast fs w =
     (case snd w of
        Thrown err \<Rightarrow> fst w \<noteq> [] \<and> failure fs (last (fst w)) = Some err \<and>
                      (\<forall>ev \<in> set (butlast (fst w)). failure fs ev = None)
      | _ \<Rightarrow> (\<forall>ev \<in> set (fst w). failure fs ev = None))"

text \<open>
  Every directory a walk lists is its root or an entry of a directory it listed, under
  the plain path \<^verbatim>\<open>parent/name\<close>.
\<close>

definition plainListings :: "filesystem \<Rightarrow> string \<Rightarrow> effect list \<Rightarrow> bool" where
  "plainListings fs root tr =
     (\<forall>d. Readdir d \<in> set tr \<longrightarrow>
        d = root \<or>
        (\<exists>parent files f. Readdir parent \<in> set tr \<and> readdirSync fs parent = Inr files \<and>
           f \<in> set files \<and> d = parent @ ''/'' @ f))"

text \<open>
  A walk makes file-system calls only, and every component it returns is a regular file
  with the content read from it and the name extracted from that content.
\<close>

definition fromFiles :: "env \<Rightarrow> filesystem \<Rightarrow> walk \<Rightarrow> bool" where
  "fromFiles e fs w =
     ((\<forall>ev \<in> set (fst w). effectPath ev \<noteq> None) \<and>
      (\<forall>cs. snd w = Returned cs \<longrightarrow>
         (\<forall>c \<in> set cs. isDirectory fs (path c) = Inr False \<and>
            readFileSync fs (path c) = Inr (content c) \<and>
            name c = getComponentName e (content c) \<and>
            getComponentName e (content c) \<noteq> [])))"

text \<open>The questions asked and the files handed to the deletion helpers, in order.\<close>

definition prompts :: "effect list \<Rightarrow> string list" where
  "prompts tr = concat (map (\<lambda>ev. case ev of Prompt m \<Rightarrow> [m] | _ \<Rightarrow> []) tr)"

definition deletions :: "effect list \<Rightarrow> string list" where
  "deletions tr = concat (map (\<lambda>ev. case ev of Delete p \<Rightarrow> [p] | _ \<Rightarrow> []) tr)"

text \<open>
  \<open>shallow fs n dir\<close>: below \<open>dir\<close>, directories are nested fewer than \<open>n\<close> levels deep.
\<close>

fun shallow :: "filesystem \<Rightarrow> nat \<Rightarrow> string \<Rightarrow> bool" where
  "shallow fs 0 dir = False"
| "shallow fs (Suc n) dir =
     (case readdirSync fs dir of
        Inl err \<Rightarrow> True
      | Inr files \<Rightarrow>
          (\<forall>f \<in> set files. isDirectory fs (dir @ ''/'' @ f) = Inr True \<longrightarrow>
             shallow fs n (dir @ ''/'' @ f)))"

text \<open>
  The file-system calls among some effects, and the effects a run adds to a world.
\<close>

definition fsCalls :: "effect list \<Rightarrow> effect list" where
  "fsCalls tr = filter (\<lambda>ev. effectPath ev \<noteq> None) tr"

definition added :: "world \<Rightarrow> world \<Rightarrow> effect list" where
  "added w w' = drop (length (effects w)) (effects w')"

text \<open>
  The wording of claim C3, kept apart from the code: the explicit path verbatim when one
  is given, whatever it is; otherwise the working directory, with the base path
  appended when absolute imports are on.
\<close>

definition specScanRoot :: "env \<Rightarrow> string" where
  "specScanRoot e =
     (case args_path (args e) of
        Some explicitPath \<Rightarrow> explicitPath
      | None \<Rightarrow> if args_absoluteImports (args e) then cwd e @ ''/'' @ baseUrl (utils e)
                else cwd e)"

text \<open>
  Two devices of the proofs: what one entry adds to a walk, and a walk continued by
  what an entry adds.
\<close>

definition entryWalk :: "env \<Rightarrow> filesystem \<Rightarrow> (string \<Rightarrow> walk) \<Rightarrow> string \<Rightarrow> string \<Rightarrow> walk" where
  "entryWalk e fs recurse dir fileName =
     reduceCallback e fs recurse dir ([], Returned []) fileName"

definition appendWalk :: "effect list \<Rightarrow> Component list \<Rightarrow> walk \<Rightarrow> walk" where
  "appendWalk tr acc w =
     (tr @ fst w,
      case snd w of Returned cs \<Rightarrow> Returned (acc @ cs) | Thrown err \<Rightarrow> Thrown err
                  | OutOfFuel \<Rightarrow> OutOfFuel)"

section \<open>Fixtures\<close>

text \<open>
  Concrete inputs on which the theorems are exercised. The matcher of the fixture looks
  for the component's name as a JSX-style tag, \<^verbatim>\<open><Name\<close>; the file filter accepts
  \<^verbatim>\<open>.tsx\<close> files; the parser rejects a file that starts with \<^verbatim>\<open>!\<close> and names a
  component by the first word of its file. No theorem about the program depends on
  these choices.
\<close>

definition exampleUtils :: utils where
  "exampleUtils =
     \<lparr>isImported = (\<lambda>componentName fileContent. includesStr fileContent (''<'' @ componentName)),
      isAvailableFile = (\<lambda>fileName. suffix ''.tsx'' fileName),
      baseUrl = ''src''\<rparr>"

definition exampleParse :: "string \<Rightarrow> parsed" where
  "exampleParse fileContent =
     (if prefix ''!'' fileContent then ParseError
      else Documentation
             (if fileContent = [] then None
              else Some (takeWhile (\<lambda>c. c \<noteq> CHR '' '') fileContent)))"

definition compFoo :: Component where
  "compFoo = \<lparr>name = ''Foo'', path = ''/app/A.tsx'', content = ''Foo = 1''\<rparr>"

definition compBar :: Component where
  "compBar = \<lparr>name = ''Bar'', path = ''/app/lib/B.tsx'', content = ''Bar = <Foo />''\<rparr>"

definition compBarMoved :: Component where
  "compBarMoved = \<lparr>name = ''Bar'', path = ''/old/B.tsx'', content = ''Bar = <Foo />''\<rparr>"

definition compBaz :: Component where
  "compBaz = \<lparr>name = ''Baz'', path = ''/app/lib/C.tsx'', content = ''Baz = 2''\<rparr>"

definition compTree :: Component where
  "compTree = \<lparr>name = ''Tree'', path = ''/app/Tree.tsx'', content = ''Tree = <Tree />''\<rparr>"

text \<open>
  A small project: a component at the top, a vendor directory, a directory with two
  more components and a file the parser rejects, and a file that is no source file.
\<close>

definition exampleFs :: filesystem where
  "exampleFs =
     \<lparr>readdirSync = (\<lambda>p.
        if p = ''/app'' then Inr [''A.tsx'', ''node_modules'', ''lib'', ''notes.txt'']
        else if p = ''/app/node_modules'' then Inr [''V.tsx'']
        else if p = ''/app/lib'' then Inr [''B.tsx'', ''bad.tsx'', ''C.tsx'']
        else Inl ENOENT),
      isDirectory = (\<lambda>p.
        if p = ''/app'' \<or> p = ''/app/node_modules'' \<or> p = ''/app/lib'' then Inr True
        else if p = ''/app/A.tsx'' \<or> p = ''/app/notes.txt'' \<or> p = ''/app/node_modules/V.tsx'' \<or>
                p = ''/app/lib/B.tsx'' \<or> p = ''/app/lib/bad.tsx'' \<or> p = ''/app/lib/C.tsx''
        then Inr False
        else Inl ENOENT),
      readFileSync = (\<lambda>p.
        if p = ''/app/A.tsx'' then Inr ''Foo = 1''
        else if p = ''/app/lib/B.tsx'' then Inr ''Bar = <Foo />''
        else if p = ''/app/lib/bad.tsx'' then Inr ''!''
        else if p = ''/app/lib/C.tsx'' then Inr ''Baz = 2''
        else if p = ''/app/node_modules/V.tsx'' then Inr ''V = <Bar />''
        else if p = ''/app/notes.txt'' then Inr ''notes''
        else Inl ENOENT)\<rparr>"

text \<open>The same project with a source file that cannot be read.\<close>

definition brokenFs :: filesystem where
  "brokenFs = exampleFs\<lparr>readFileSync := (readFileSync exampleFs)(''/app/lib/B.tsx'' := Inl EACCES)\<rparr>"

text \<open>
  A run in the project directory that skips vendor directories, with a user who
  confirms the deletion of \<^verbatim>\<open>B.tsx\<close> and declines every other one.
\<close>

definition exampleEnv :: env where
  "exampleEnv =
     \<lparr>args = \<lparr>args_path = None, args_absoluteImports = False, args_ignoreNodeModules = True,
               args_force = False, args_verbose = False\<rparr>,
      utils = exampleUtils,
      reactDocs_parse = exampleParse,
      cwd = ''/app'',
      confirm = (\<lambda>shown. last shown = Prompt ''Do you want to delete /app/lib/B.tsx ?'')\<rparr>"

text \<open>The same run with \<^verbatim>\<open>--force\<close>.\<close>

definition forcedEnv :: env where
  "forcedEnv = exampleEnv\<lparr>args := (args exampleEnv)\<lparr>args_force := True\<rparr>\<rparr>"

text \<open>What the walk of the project does, and the world a run starts in.\<close>

definition exampleTrace :: "effect list" where
  "exampleTrace =
     [Readdir ''/app'', Stat ''/app/A.tsx'', ReadFile ''/app/A.tsx'', Stat ''/app/node_modules'',
      Stat ''/app/lib'', Readdir ''/app/lib'', Stat ''/app/lib/B.tsx'', ReadFile ''/app/lib/B.tsx'',
      Stat ''/app/lib/bad.tsx'', ReadFile ''/app/lib/bad.tsx'', Stat ''/app/lib/C.tsx'',
      ReadFile ''/app/lib/C.tsx'', Stat ''/app/notes.txt'']"

definition exampleWorld :: world where
  "exampleWorld = \<lparr>disk = exampleFs, effects = []\<rparr>"

text \<open>
  Three more runs: with \<^verbatim>\<open>--absoluteImports\<close>, with an explicit path as well, and
  with an explicit path that is the empty string.
\<close>

definition absoluteEnv :: env where
  "absoluteEnv = exampleEnv\<lparr>args := (args exampleEnv)\<lparr>args_absoluteImports := True\<rparr>\<rparr>"

definition explicitEnv :: env where
  "explicitEnv =
     exampleEnv\<lparr>args := (args exampleEnv)\<lparr>args_path := Some ''/srv/ui'',
                                               args_absoluteImports := True\<rparr>\<rparr>"

definition emptyPathEnv :: env where
  "emptyPathEnv = exampleEnv\<lparr>args := (args exampleEnv)\<lparr>args_path := Some []\<rparr>\<rparr>"

text \<open>
  A run pointed at the vendor directory itself, and the component that lives there.
\<close>

definition vendorRootEnv :: env where
  "vendorRootEnv =
     exampleEnv\<lparr>args := (args exampleEnv)\<lparr>args_path := Some ''/app/node_modules''\<rparr>\<rparr>"

definition compV :: Component where
  "compV = \<lparr>name = ''V'', path = ''/app/node_modules/V.tsx'', content = ''V = <Bar />''\<rparr>"

section \<open>Properties of the usage resolver\<close>

lemma verifyImport_None_iff:
  "verifyImport u c fs = None \<longleftrightarrow> (\<exists>f \<in> set fs. isImported u (name c) (content f))"
  by (induction fs) auto

lemma verifyImport_Some_iff:
  "verifyImport u c fs = Some d \<longleftrightarrow> d = c \<and> (\<forall>f \<in> set fs. \<not> isImported u (name c) (content f))"
  by (induction fs) auto

lemma reduce_unused_filter:
  "foldl (\<lambda>acc curr. (case verifyImport u curr fs of None \<Rightarrow> acc | Some x \<Rightarrow> acc @ [x])) acc0 cs
     = acc0 @ filter (\<lambda>c. verifyImport u c fs \<noteq> None) cs"
proof (induction cs arbitrary: acc0)
  case Nil
  show ?case by simp
next
  case (Cons c cs)
  show ?case
  proof (cases "verifyImport u c fs")
    case None
    then show ?thesis using Cons.IH [of acc0] by simp
  next
    case (Some d)
    then have "d = c" by (simp add: verifyImport_Some_iff)
    with Some show ?thesis using Cons.IH [of "acc0 @ [c]"] by simp
  qed
qed

lemma getUnusedComponents_filter:
  "getUnusedComponents u cs = filter (\<lambda>c. verifyImport u c cs \<noteq> None) cs"
  unfolding getUnusedComponents_def by (simp add: reduce_unused_filter)

subsection \<open>C1: which components are classified unused\<close>

text \<open>
  C1, as worded, fails. The claim excludes from the unused list exactly the components
  referenced from the content of some \<^emph>\<open>other\<close> component. The loop of
  \<^verbatim>\<open>verifyImport\<close> runs over the whole list, the component itself included: a
  component that only its own file references is dropped from the unused list, although
  no other component references it.
\<close>

theorem unused_iff_no_other_reference_counterexample:
  "\<not> referencedByOther exampleUtils [compTree] 0 \<and>
   [compTree] ! 0 \<notin> set (getUnusedComponents exampleUtils [compTree])"
  by (simp add: referencedByOther_def getUnusedComponents_def exampleUtils_def compTree_def)

text \<open>
  C1, amended: the unused list is the input list restricted, in order, to the components
  whose name is matched in the content of no component of the list, their own content
  included.
\<close>

theorem getUnusedComponents_unreferenced:
  "getUnusedComponents u cs =
     filter (\<lambda>c. \<forall>f \<in> set cs. \<not> isImported u (name c) (content f)) cs"
  by (simp add: getUnusedComponents_filter verifyImport_None_iff)

theorem getUnusedComponents_unreferenced_witness:
  "getUnusedComponents exampleUtils [compFoo, compBar] = [compBar]"
  using getUnusedComponents_unreferenced [of exampleUtils "[compFoo, compBar]"]
  by (simp add: exampleUtils_def compFoo_def compBar_def)

subsection \<open>C2: a component referenced from its own content is used\<close>

text \<open>
  C2: when the matcher finds the name of a component \<open>c\<close> of the list in the content of
  \<open>c\<close> itself, \<open>c\<close> is not in the unused list: the scan does not skip the
  component's own content.
\<close>

theorem self_reference_used:
  assumes "c \<in> set cs" and "isImported u (name c) (content c)"
  shows "c \<notin> set (getUnusedComponents u cs)"
proof -
  from assms have "verifyImport u c cs = None"
    unfolding verifyImport_None_iff by blast
  then show ?thesis by (simp add: getUnusedComponents_filter)
qed

theorem self_reference_used_witness:
  "compTree \<in> set [compBar, compTree] \<and>
   isImported exampleUtils (name compTree) (content compTree) \<and>
   compTree \<notin> set (getUnusedComponents exampleUtils [compBar, compTree])"
proof -
  have a: "compTree \<in> set [compBar, compTree]" by simp
  have b: "isImported exampleUtils (name compTree) (content compTree)"
    by (simp add: exampleUtils_def compTree_def)
  from a b self_reference_used [OF a b] show ?thesis by blast
qed

subsection \<open>C6: determinism and order of the result\<close>

text \<open>
  Which names and contents come out is fixed by the names and contents that go in.
\<close>

lemma unused_by_name_and_content:
  "map (\<lambda>c. (name c, content c)) (getUnusedComponents u cs) =
     filter (\<lambda>(n, t). \<forall>t' \<in> set (map content cs). \<not> isImported u n t')
       (zip (map name cs) (map content cs))"
proof -
  have "zip (map name cs) (map content cs) = map (\<lambda>c. (name c, content c)) cs"
    by (induction cs) simp_all
  then show ?thesis
    by (simp add: getUnusedComponents_filter verifyImport_None_iff filter_map comp_def)
qed

text \<open>
  C6: the resolver is a function of the component list alone (its only other input is
  the matcher, which is fixed for a run), so two runs on the same list return the same
  list; more than that, the names and contents of the unused components are fixed by
  the names and contents of the input, whatever the paths; and the result is the input
  list restricted to the unused components, which keep the order they have in the
  input.
\<close>

theorem getUnusedComponents_deterministic_in_order:
  "(cs' = cs \<longrightarrow> getUnusedComponents u cs' = getUnusedComponents u cs) \<and>
   (map name cs' = map name cs \<and> map content cs' = map content cs \<longrightarrow>
      map name (getUnusedComponents u cs') = map name (getUnusedComponents u cs) \<and>
      map content (getUnusedComponents u cs') = map content (getUnusedComponents u cs)) \<and>
   getUnusedComponents u cs = filter (\<lambda>c. c \<in> set (getUnusedComponents u cs)) cs"
proof -
  have same: "map name (getUnusedComponents u cs') = map name (getUnusedComponents u cs) \<and>
      map content (getUnusedComponents u cs') = map content (getUnusedComponents u cs)"
    if "map name cs' = map name cs" "map content cs' = map content cs"
  proof -
    from that have "map (\<lambda>c. (name c, content c)) (getUnusedComponents u cs') =
                    map (\<lambda>c. (name c, content c)) (getUnusedComponents u cs)"
      by (simp only: unused_by_name_and_content)
    then have "map fst (map (\<lambda>c. (name c, content c)) (getUnusedComponents u cs')) =
               map fst (map (\<lambda>c. (name c, content c)) (getUnusedComponents u cs))"
      and "map snd (map (\<lambda>c. (name c, content c)) (getUnusedComponents u cs')) =
           map snd (map (\<lambda>c. (name c, content c)) (getUnusedComponents u cs))"
      by simp_all
    then show ?thesis by (simp add: comp_def)
  qed
  have order: "getUnusedComponents u cs = filter (\<lambda>c. c \<in> set (getUnusedComponents u cs)) cs"
    by (auto simp add: getUnusedComponents_filter intro: filter_cong)
  from same order show ?thesis by simp
qed

theorem getUnusedComponents_deterministic_in_order_witness:
  "getUnusedComponents exampleUtils [compFoo, compBar] = [compBar] \<and>
   map name [compFoo, compBarMoved] = map name [compFoo, compBar] \<and>
   map content [compFoo, compBarMoved] = map content [compFoo, compBar] \<and>
   map name (getUnusedComponents exampleUtils [compFoo, compBarMoved]) = [''Bar''] \<and>
   filter (\<lambda>c. c \<in> set (getUnusedComponents exampleUtils [compFoo, compBar])) [compFoo, compBar]
     = [compBar]"
proof -
  have run: "getUnusedComponents exampleUtils [compFoo, compBar] = [compBar]"
    by code_simp
  have names: "map name [compFoo, compBarMoved] = map name [compFoo, compBar]"
    and contents: "map content [compFoo, compBarMoved] = map content [compFoo, compBar]"
    by (simp_all add: compBar_def compBarMoved_def)
  note t = getUnusedComponents_deterministic_in_order
    [of "[compFoo, compBarMoved]" "[compFoo, compBar]" exampleUtils]
  from t [THEN conjunct2, THEN conjunct1, THEN mp, OF conjI, OF names contents, THEN conjunct1]
  have "map name (getUnusedComponents exampleUtils [compFoo, compBarMoved]) = map name [compBar]"
    by (simp only: run)
  then have moved: "map name (getUnusedComponents exampleUtils [compFoo, compBarMoved]) = [''Bar'']"
    by (simp add: compBar_def)
  from t [THEN conjunct2, THEN conjunct2]
  have "filter (\<lambda>c. c \<in> set (getUnusedComponents exampleUtils [compFoo, compBar])) [compFoo, compBar]
     = [compBar]"
    by (simp only: run)
  with run names contents moved show ?thesis by simp
qed

subsection \<open>C10: the result is a sublist of the input\<close>

text \<open>
  C10: \<^verbatim>\<open>verifyImport\<close> returns nothing or the very component it was given, and the
  unused list is a subsequence of the input list: its elements are elements of the input,
  unchanged, in input order, none of them more often than in the input.
\<close>

theorem getUnusedComponents_subseq:
  "(verifyImport u c cs = None \<or> verifyImport u c cs = Some c) \<and>
   subseq (getUnusedComponents u cs) cs"
  by (cases "verifyImport u c cs")
     (simp_all add: verifyImport_Some_iff getUnusedComponents_filter)

section \<open>Properties of the tree walker\<close>

subsection \<open>The reduce, one entry at a time\<close>

text \<open>
  A property kept by every step of a left fold holds for its result. For the walk, a
  step from a state that is not \<open>Returned\<close> changes nothing, and a step from a
  \<open>Returned\<close> state appends what the entry adds; an entry adds one of seven things.
\<close>

lemma foldl_invariant:
  assumes "P s" and "\<And>s x. x \<in> set xs \<Longrightarrow> P s \<Longrightarrow> P (f s x)"
  shows "P (foldl f s xs)"
  using assms by (induction xs arbitrary: s) auto

lemma reduceCallback_Returned:
  "reduceCallback e fs recurse dir (tr, Returned acc) f = appendWalk tr acc (entryWalk e fs recurse dir f)"
  by (auto simp add: reduceCallback_def entryWalk_def appendWalk_def Let_def
           split: sum.splits prod.splits outcome.splits)

lemma reduceCallback_stopped:
  "\<forall>acc. out \<noteq> Returned acc \<Longrightarrow> reduceCallback e fs recurse dir (tr, out) f = (tr, out)"
  by (cases out) (simp_all add: reduceCallback_def)

lemma foldl_reduceCallback_stopped:
  "\<forall>acc. out \<noteq> Returned acc \<Longrightarrow>
   foldl (reduceCallback e fs recurse dir) (tr, out) files = (tr, out)"
  by (induction files) (simp_all add: reduceCallback_stopped)

lemma entryWalk_cases [case_names statFail vendor nested notAvailable readFail rejected accepted]:
  fixes e fs recurse dir f
  defines "p \<equiv> dir @ ''/'' @ f"
  defines "w \<equiv> entryWalk e fs recurse dir f"
  obtains
    (statFail) err where "isDirectory fs p = Inl err" "w = ([Stat p], Thrown err)"
  | (vendor) "isDirectory fs p = Inr True" "args_ignoreNodeModules (args e)"
      "includesStr f ''node_modules''" "w = ([Stat p], Returned [])"
  | (nested) "isDirectory fs p = Inr True"
      "\<not> (args_ignoreNodeModules (args e) \<and> includesStr f ''node_modules'')"
      "w = (Stat p # fst (recurse p), snd (recurse p))"
  | (notAvailable) "isDirectory fs p = Inr False" "\<not> isAvailableFile (utils e) f"
      "w = ([Stat p], Returned [])"
  | (readFail) err where "isDirectory fs p = Inr False" "isAvailableFile (utils e) f"
      "readFileSync fs p = Inl err" "w = ([Stat p, ReadFile p], Thrown err)"
  | (rejected) fileContent where "isDirectory fs p = Inr False" "isAvailableFile (utils e) f"
      "readFileSync fs p = Inr fileContent" "getComponentName e fileContent = []"
      "w = ([Stat p, ReadFile p], Returned [])"
  | (accepted) fileContent where "isDirectory fs p = Inr False" "isAvailableFile (utils e) f"
      "readFileSync fs p = Inr fileContent" "getComponentName e fileContent \<noteq> []"
      "w = ([Stat p, ReadFile p],
            Returned [\<lparr>name = getComponentName e fileContent, path = p, content = fileContent\<rparr>])"
proof (cases "isDirectory fs p")
  case (Inl err)
  then have "w = ([Stat p], Thrown err)"
    by (simp add: w_def p_def entryWalk_def reduceCallback_def Let_def)
  with Inl show ?thesis by (rule statFail)
next
  case (Inr isDir)
  show ?thesis
  proof (cases isDir)
    case True
    show ?thesis
    proof (cases "args_ignoreNodeModules (args e) \<and> includesStr f ''node_modules''")
      case skip: True
      with Inr True have "w = ([Stat p], Returned [])"
        by (simp add: w_def p_def entryWalk_def reduceCallback_def Let_def)
      with Inr True skip show ?thesis by (auto intro: vendor)
    next
      case False
      with Inr True have "w = (Stat p # fst (recurse p), snd (recurse p))"
        by (auto simp add: w_def p_def entryWalk_def reduceCallback_def Let_def
                 split: prod.splits outcome.splits)
      with Inr True False show ?thesis by (auto intro: nested)
    qed
  next
    case notDir: False
    show ?thesis
    proof (cases "isAvailableFile (utils e) f")
      case False
      with Inr notDir have "w = ([Stat p], Returned [])"
        by (simp add: w_def p_def entryWalk_def reduceCallback_def Let_def)
      with Inr notDir False show ?thesis by (auto intro: notAvailable)
    next
      case True
      show ?thesis
      proof (cases "readFileSync fs p")
        case (Inl err)
        with Inr notDir True have "w = ([Stat p, ReadFile p], Thrown err)"
          by (simp add: w_def p_def entryWalk_def reduceCallback_def Let_def)
        with Inr notDir True Inl show ?thesis by (auto intro: readFail)
      next
        case readOk: (Inr fileContent)
        show ?thesis
        proof (cases "getComponentName e fileContent = []")
          case empty: True
          with Inr notDir True readOk have "w = ([Stat p, ReadFile p], Returned [])"
            by (simp add: w_def p_def entryWalk_def reduceCallback_def Let_def)
          with Inr notDir True readOk empty show ?thesis by (auto intro: rejected)
        next
          case named: False
          with Inr notDir True readOk
          have "w = ([Stat p, ReadFile p],
            Returned [\<lparr>name = getComponentName e fileContent, path = p, content = fileContent\<rparr>])"
            by (simp add: w_def p_def entryWalk_def reduceCallback_def Let_def)
          with Inr notDir True readOk named show ?thesis by (auto intro: accepted)
        qed
      qed
    qed
  qed
qed

lemma walk_fold_invariant:
  assumes init: "P (tr0, Returned acc0)"
    and step: "\<And>tr acc f. f \<in> set files \<Longrightarrow> P (tr, Returned acc) \<Longrightarrow>
                 P (appendWalk tr acc (entryWalk e fs recurse dir f))"
  shows "P (foldl (reduceCallback e fs recurse dir) (tr0, Returned acc0) files)"
proof (rule foldl_invariant [where P = P, OF init])
  fix st :: walk and f
  assume f: "f \<in> set files" and st: "P st"
  obtain tr out where [simp]: "st = (tr, out)" by (cases st)
  show "P (reduceCallback e fs recurse dir st f)"
  proof (cases out)
    case (Returned acc)
    with st step [OF f, of tr acc] show ?thesis by (simp add: reduceCallback_Returned)
  next
    case (Thrown err)
    with st show ?thesis by (simp add: reduceCallback_stopped)
  next
    case OutOfFuel
    with st show ?thesis by (simp add: reduceCallback_stopped)
  qed
qed

lemma useFullPath_nested [simp]: "useFullPath e p True = p"
  by (simp add: useFullPath_def)

subsection \<open>The fixture project\<close>

lemma exampleWalk:
  "getComponentsFromDir exampleEnv exampleFs 3 ''/app'' False
     = (exampleTrace, Returned [compFoo, compBar, compBaz])"
  by code_simp

lemma forcedWalk:
  "getComponentsFromDir forcedEnv exampleFs 3 ''/app'' False
     = (exampleTrace, Returned [compFoo, compBar, compBaz])"
  by code_simp

lemma exampleZombies:
  "getUnusedComponents exampleUtils [compFoo, compBar, compBaz] = [compBar, compBaz]"
  by code_simp

lemma exampleFs_listing:
  assumes "readdirSync exampleFs d = Inr files"
  shows "files = [''A.tsx'', ''node_modules'', ''lib'', ''notes.txt''] \<or> files = [''V.tsx''] \<or>
         files = [''B.tsx'', ''bad.tsx'', ''C.tsx'']"
  using assms by (simp add: exampleFs_def split: if_splits)

lemma exampleFs_names: "\<forall>f \<in> entryNames exampleFs. CHR ''/'' \<notin> set f"
proof
  fix f
  assume "f \<in> entryNames exampleFs"
  then obtain d files where listing: "readdirSync exampleFs d = Inr files" and f: "f \<in> set files"
    unfolding entryNames_def by (elim CollectE exE conjE)
  from exampleFs_listing [OF listing] f show "CHR ''/'' \<notin> set f"
    by (elim disjE) auto
qed

subsection \<open>Fuel\<close>

text \<open>
  The fuel is no restriction on real trees: a tree whose directories are nested fewer
  than \<open>fuel\<close> levels deep never runs out of it, and a walk that did not run out of
  fuel is the same with more.
\<close>

lemma getComponentsFromDir_returns:
  "shallow fs fuel (useFullPath e p isSubfolder) \<Longrightarrow>
   snd (getComponentsFromDir e fs fuel p isSubfolder) \<noteq> OutOfFuel"
proof (induction fuel arbitrary: p isSubfolder)
  case 0
  then show ?case by simp
next
  case (Suc fuel)
  define dir where "dir = useFullPath e p isSubfolder"
  show ?case
  proof (cases "readdirSync fs dir")
    case (Inl err)
    then show ?thesis by (simp add: dir_def [symmetric])
  next
    case (Inr files)
    let ?P = "\<lambda>st :: walk. snd st \<noteq> OutOfFuel"
    have "?P (foldl (reduceCallback e fs (\<lambda>filePath. getComponentsFromDir e fs fuel filePath True) dir)
               ([Readdir dir], Returned []) files)"
    proof (rule walk_fold_invariant [where P = ?P])
      show "?P ([Readdir dir], Returned [])" by simp
    next
      fix tr acc f
      assume f: "f \<in> set files"
      let ?w = "entryWalk e fs (\<lambda>filePath. getComponentsFromDir e fs fuel filePath True) dir f"
      have "snd ?w \<noteq> OutOfFuel"
      proof (cases e fs "\<lambda>filePath. getComponentsFromDir e fs fuel filePath True" dir f
               rule: entryWalk_cases)
        case nested
        from Suc.prems Inr f nested(1) have "shallow fs fuel (dir @ ''/'' @ f)"
          by (simp add: dir_def [symmetric])
        with Suc.IH [of "dir @ ''/'' @ f" True] nested(3) show ?thesis by simp
      qed simp_all
      then show "?P (appendWalk tr acc ?w)"
        by (cases "snd ?w") (simp_all add: appendWalk_def)
    qed
    with Inr show ?thesis by (simp add: dir_def [symmetric])
  qed
qed

lemma foldl_reduceCallback_recurse:
  assumes "snd (foldl (reduceCallback e fs rec1 dir) st files) \<noteq> OutOfFuel"
    and "\<And>q. snd (rec1 q) \<noteq> OutOfFuel \<Longrightarrow> rec2 q = rec1 q"
  shows "foldl (reduceCallback e fs rec2 dir) st files = foldl (reduceCallback e fs rec1 dir) st files"
  using assms(1)
proof (induction files arbitrary: st)
  case Nil
  show ?case by simp
next
  case (Cons f files)
  obtain tr out where st: "st = (tr, out)" by (cases st)
  show ?case
  proof (cases out)
    case (Returned acc)
    have same: "entryWalk e fs rec2 dir f = entryWalk e fs rec1 dir f"
    proof (cases e fs rec1 dir f rule: entryWalk_cases)
      case nested
      have "snd (rec1 (dir @ ''/'' @ f)) \<noteq> OutOfFuel"
      proof
        assume "snd (rec1 (dir @ ''/'' @ f)) = OutOfFuel"
        with nested(3) st Returned
        have "reduceCallback e fs rec1 dir st f = (tr @ Stat (dir @ ''/'' @ f) # fst (rec1 (dir @ ''/'' @ f)), OutOfFuel)"
          by (simp add: reduceCallback_Returned appendWalk_def)
        with Cons.prems show False by (simp add: foldl_reduceCallback_stopped)
      qed
      from assms(2) [OF this] nested(1,2) show ?thesis
        by (auto simp add: entryWalk_def reduceCallback_def Let_def)
    qed (simp_all add: entryWalk_def reduceCallback_def Let_def)
    then have "reduceCallback e fs rec2 dir st f = reduceCallback e fs rec1 dir st f"
      using st Returned by (simp add: reduceCallback_Returned)
    with Cons.IH [of "reduceCallback e fs rec1 dir st f"] Cons.prems show ?thesis by simp
  qed (use st in \<open>simp_all add: foldl_reduceCallback_stopped reduceCallback_stopped\<close>)
qed

lemma getComponentsFromDir_fuel_stable:
  "snd (getComponentsFromDir e fs fuel p isSubfolder) \<noteq> OutOfFuel \<Longrightarrow>
   getComponentsFromDir e fs (Suc fuel) p isSubfolder = getComponentsFromDir e fs fuel p isSubfolder"
proof (induction fuel arbitrary: p isSubfolder)
  case 0
  then show ?case by simp
next
  case (Suc fuel)
  define dir where "dir = useFullPath e p isSubfolder"
  show ?case
  proof (cases "readdirSync fs dir")
    case (Inl err)
    then show ?thesis by (simp add: dir_def [symmetric])
  next
    case (Inr files)
    with Suc.prems have "snd (foldl (reduceCallback e fs
        (\<lambda>filePath. getComponentsFromDir e fs fuel filePath True) dir)
        ([Readdir dir], Returned []) files) \<noteq> OutOfFuel"
      by (simp add: dir_def [symmetric])
    from foldl_reduceCallback_recurse [OF this,
        of "\<lambda>filePath. getComponentsFromDir e fs (Suc fuel) filePath True"] Suc.IH
    have "foldl (reduceCallback e fs (\<lambda>filePath. getComponentsFromDir e fs (Suc fuel) filePath True) dir)
            ([Readdir dir], Returned []) files =
          foldl (reduceCallback e fs (\<lambda>filePath. getComponentsFromDir e fs fuel filePath True) dir)
            ([Readdir dir], Returned []) files"
      by blast
    moreover have "getComponentsFromDir e fs (Suc (Suc fuel)) p isSubfolder =
          foldl (reduceCallback e fs (\<lambda>filePath. getComponentsFromDir e fs (Suc fuel) filePath True) dir)
            ([Readdir dir], Returned []) files"
      by (subst getComponentsFromDir.simps(2))
         (simp add: Inr dir_def [symmetric] del: getComponentsFromDir.simps)
    moreover have "getComponentsFromDir e fs (Suc fuel) p isSubfolder =
          foldl (reduceCallback e fs (\<lambda>filePath. getComponentsFromDir e fs fuel filePath True) dir)
            ([Readdir dir], Returned []) files"
      by (subst getComponentsFromDir.simps(2))
         (simp add: Inr dir_def [symmetric] del: getComponentsFromDir.simps)
    ultimately show ?thesis by simp
  qed
qed

subsection \<open>Which directories a walk lists\<close>

lemma getComponentsFromDir_plainListings:
  "plainListings fs (useFullPath e p isSubfolder) (fst (getComponentsFromDir e fs fuel p isSubfolder))"
proof (induction fuel arbitrary: p isSubfolder)
  case 0
  show ?case by (simp add: plainListings_def)
next
  case (Suc fuel)
  define dir where "dir = useFullPath e p isSubfolder"
  show ?case
  proof (cases "readdirSync fs dir")
    case (Inl err)
    then show ?thesis by (simp add: dir_def [symmetric] plainListings_def)
  next
    case (Inr files)
    let ?P = "\<lambda>st :: walk. Readdir dir \<in> set (fst st) \<and> plainListings fs dir (fst st)"
    have "?P (foldl (reduceCallback e fs (\<lambda>filePath. getComponentsFromDir e fs fuel filePath True) dir)
               ([Readdir dir], Returned []) files)"
    proof (rule walk_fold_invariant [where P = ?P])
      show "?P ([Readdir dir], Returned [])"
        by (simp add: plainListings_def)
    next
      fix tr acc f
      assume f: "f \<in> set files" and st: "?P (tr, Returned acc)"
      let ?w = "entryWalk e fs (\<lambda>filePath. getComponentsFromDir e fs fuel filePath True) dir f"
      have new: "\<forall>d. Readdir d \<in> set (fst ?w) \<longrightarrow>
                   d = dir @ ''/'' @ f \<or>
                   (\<exists>parent files f. Readdir parent \<in> set (fst ?w) \<and>
                      readdirSync fs parent = Inr files \<and> f \<in> set files \<and> d = parent @ ''/'' @ f)"
      proof (cases e fs "\<lambda>filePath. getComponentsFromDir e fs fuel filePath True" dir f
               rule: entryWalk_cases)
        case nested
        with Suc.IH [of "dir @ ''/'' @ f" True] show ?thesis
          unfolding plainListings_def by auto
      qed simp_all
      have "plainListings fs dir (tr @ fst ?w)"
        unfolding plainListings_def
      proof (intro allI impI)
        fix d
        assume "Readdir d \<in> set (tr @ fst ?w)"
        then consider "Readdir d \<in> set tr" | "Readdir d \<in> set (fst ?w)" by auto
        then show "d = dir \<or>
          (\<exists>parent files f. Readdir parent \<in> set (tr @ fst ?w) \<and>
             readdirSync fs parent = Inr files \<and> f \<in> set files \<and> d = parent @ ''/'' @ f)"
        proof cases
          case 1
          with st show ?thesis unfolding plainListings_def by fastforce
        next
          case 2
          with new have "d = dir @ ''/'' @ f \<or>
                   (\<exists>parent files f. Readdir parent \<in> set (fst ?w) \<and>
                      readdirSync fs parent = Inr files \<and> f \<in> set files \<and> d = parent @ ''/'' @ f)"
            by blast
          then show ?thesis
          proof
            assume "d = dir @ ''/'' @ f"
            with st f Inr show ?thesis by auto
          next
            assume "\<exists>parent files f. Readdir parent \<in> set (fst ?w) \<and>
                      readdirSync fs parent = Inr files \<and> f \<in> set files \<and> d = parent @ ''/'' @ f"
            then show ?thesis by auto
          qed
        qed
      qed
      with st show "?P (appendWalk tr acc ?w)" by (simp add: appendWalk_def)
    qed
    with Inr show ?thesis by (simp add: dir_def [symmetric])
  qed
qed

subsection \<open>C4: vendor directories\<close>

lemma reached_root: "reached fs root root"
  unfolding reached_def by (rule exI [of _ "[]"]) simp

lemma reached_child: "f \<in> entryNames fs \<Longrightarrow> reached fs root (root @ ''/'' @ f)"
  unfolding reached_def by (rule exI [of _ "[f]"]) simp

lemma reached_descend:
  assumes "reached fs (root @ ''/'' @ f) q" "f \<in> entryNames fs" "\<not> includesStr f ''node_modules''"
  shows "reached fs root q"
proof -
  from assms(1) obtain segs where segs: "q = joinPath (root @ ''/'' @ f) segs"
    "set segs \<subseteq> entryNames fs" "\<forall>d \<in> set (butlast segs). \<not> includesStr d ''node_modules''"
    unfolding reached_def by blast
  have "\<forall>d \<in> set (butlast (f # segs)). \<not> includesStr d ''node_modules''"
    using segs(3) assms(3) by (cases segs) auto
  with segs(1,2) assms(2) show ?thesis
    unfolding reached_def by (intro exI [of _ "f # segs"]) simp
qed

lemma cleanWalk_descend:
  "cleanWalk fs (root @ ''/'' @ f) w \<Longrightarrow> f \<in> entryNames fs \<Longrightarrow>
   \<not> includesStr f ''node_modules'' \<Longrightarrow> cleanWalk fs root w"
  unfolding cleanWalk_def by (blast intro: reached_descend)

lemma cleanWalk_appendWalk:
  "cleanWalk fs root (tr, Returned acc) \<Longrightarrow> cleanWalk fs root w \<Longrightarrow>
   cleanWalk fs root (appendWalk tr acc w)"
  unfolding cleanWalk_def appendWalk_def by (cases "snd w") auto

lemma cleanWalk_Stat_Cons:
  "reached fs root p \<Longrightarrow> cleanWalk fs root w \<Longrightarrow> cleanWalk fs root (Stat p # fst w, snd w)"
  unfolding cleanWalk_def by auto

lemma getComponentsFromDir_clean:
  assumes ignore: "args_ignoreNodeModules (args e)"
  shows "cleanWalk fs (useFullPath e p isSubfolder) (getComponentsFromDir e fs fuel p isSubfolder)"
proof (induction fuel arbitrary: p isSubfolder)
  case 0
  show ?case by (simp add: cleanWalk_def)
next
  case (Suc fuel)
  define dir where "dir = useFullPath e p isSubfolder"
  show ?case
  proof (cases "readdirSync fs dir")
    case (Inl err)
    then show ?thesis
      by (simp add: dir_def [symmetric] cleanWalk_def reached_root)
  next
    case (Inr files)
    have "cleanWalk fs dir
            (foldl (reduceCallback e fs (\<lambda>filePath. getComponentsFromDir e fs fuel filePath True) dir)
               ([Readdir dir], Returned []) files)"
    proof (rule walk_fold_invariant)
      show "cleanWalk fs dir ([Readdir dir], Returned [])"
        by (simp add: cleanWalk_def reached_root)
    next
      fix tr acc f
      assume f: "f \<in> set files" and st: "cleanWalk fs dir (tr, Returned acc)"
      from f Inr have name: "f \<in> entryNames fs" unfolding entryNames_def by blast
      then have child: "reached fs dir (dir @ ''/'' @ f)" by (rule reached_child)
      have "cleanWalk fs dir
              (entryWalk e fs (\<lambda>filePath. getComponentsFromDir e fs fuel filePath True) dir f)"
      proof (cases e fs "\<lambda>filePath. getComponentsFromDir e fs fuel filePath True" dir f
               rule: entryWalk_cases)
        case (nested)
        from nested(2) ignore have "\<not> includesStr f ''node_modules''" by simp
        with Suc.IH [of "dir @ ''/'' @ f" True] name
        have "cleanWalk fs dir (getComponentsFromDir e fs fuel (dir @ ''/'' @ f) True)"
          by (auto intro: cleanWalk_descend)
        with child nested(3) show ?thesis by (simp add: cleanWalk_Stat_Cons)
      qed (use child in \<open>simp_all add: cleanWalk_def\<close>)
      with st show "cleanWalk fs dir
          (appendWalk tr acc (entryWalk e fs (\<lambda>filePath. getComponentsFromDir e fs fuel filePath True) dir f))"
        by (rule cleanWalk_appendWalk)
    qed
    with Inr show ?thesis by (simp add: dir_def [symmetric])
  qed
qed

lemma joinPath_concat: "joinPath dir segs = dir @ concat (map ((#) CHR ''/'') segs)"
  by (induction segs arbitrary: dir) simp_all

lemma slashfree_split:
  assumes "x @ r = y @ r'" "CHR ''/'' \<notin> set x" "CHR ''/'' \<notin> set y"
    and "r = [] \<or> hd r = CHR ''/''" and "r' = [] \<or> hd r' = CHR ''/''"
  shows "x = y \<and> r = r'"
proof -
  have tw: "takeWhile (\<lambda>c. c \<noteq> CHR ''/'') (s @ t) = s"
    if "CHR ''/'' \<notin> set s" "t = [] \<or> hd t = CHR ''/''" for s t :: string
  proof -
    from that(2) have "takeWhile (\<lambda>c. c \<noteq> CHR ''/'') t = []" by (cases t) auto
    moreover from that(1) have "\<And>c. c \<in> set s \<Longrightarrow> c \<noteq> CHR ''/''" by auto
    ultimately show ?thesis by (simp add: takeWhile_append2)
  qed
  from tw [OF assms(2) assms(4)] tw [OF assms(3) assms(5)] assms(1) have "x = y" by simp
  with assms(1) show ?thesis by simp
qed

lemma slashJoin_head: "concat (map ((#) CHR ''/'') xs) = [] \<or> hd (concat (map ((#) CHR ''/'') xs)) = CHR ''/''"
  by (cases xs) simp_all

lemma slashJoin_inj:
  assumes "\<forall>s \<in> set xs. CHR ''/'' \<notin> set s" "\<forall>s \<in> set ys. CHR ''/'' \<notin> set s"
    and "concat (map ((#) CHR ''/'') xs) = concat (map ((#) CHR ''/'') ys)"
  shows "xs = ys"
  using assms
proof (induction xs arbitrary: ys)
  case Nil
  then show ?case by (cases ys) simp_all
next
  case (Cons x xs)
  show ?case
  proof (cases ys)
    case Nil
    with Cons.prems show ?thesis by simp
  next
    case ys: (Cons y ys')
    from Cons.prems(3) ys
    have eq: "x @ concat (map ((#) CHR ''/'') xs) = y @ concat (map ((#) CHR ''/'') ys')" by simp
    from Cons.prems(1,2) ys have "CHR ''/'' \<notin> set x" "CHR ''/'' \<notin> set y" by simp_all
    from slashfree_split [OF eq this slashJoin_head slashJoin_head]
    have "x = y" "concat (map ((#) CHR ''/'') xs) = concat (map ((#) CHR ''/'') ys')" by simp_all
    moreover from Cons.prems(1,2) ys
    have "\<forall>s \<in> set xs. CHR ''/'' \<notin> set s" "\<forall>s \<in> set ys'. CHR ''/'' \<notin> set s" by simp_all
    ultimately show ?thesis using Cons.IH [of ys'] ys by simp
  qed
qed

lemma reached_not_below_vendor:
  assumes names: "\<forall>f \<in> entryNames fs. CHR ''/'' \<notin> set f"
    and comps: "\<forall>s \<in> set (parents @ vendor # inside). CHR ''/'' \<notin> set s"
    and vendor: "includesStr vendor ''node_modules''"
    and inside: "inside \<noteq> []"
  shows "\<not> reached fs root (joinPath root (parents @ vendor # inside))"
proof
  assume "reached fs root (joinPath root (parents @ vendor # inside))"
  then obtain segs where segs: "joinPath root (parents @ vendor # inside) = joinPath root segs"
    "set segs \<subseteq> entryNames fs" "\<forall>d \<in> set (butlast segs). \<not> includesStr d ''node_modules''"
    unfolding reached_def by blast
  from segs(2) names have "\<forall>s \<in> set segs. CHR ''/'' \<notin> set s" by blast
  with comps segs(1) have "parents @ vendor # inside = segs"
    by (intro slashJoin_inj) (simp_all add: joinPath_concat)
  with inside have "vendor \<in> set (butlast segs)" by (auto simp add: butlast_append)
  with segs(3) vendor show False by blast
qed

text \<open>
  The walk of the vendor directory of the fixture, when the run is pointed at it.
\<close>

lemma vendorRootWalk:
  "getComponentsFromDir vendorRootEnv exampleFs 3 ''/app/node_modules'' False
     = ([Readdir ''/app/node_modules'', Stat ''/app/node_modules/V.tsx'',
         ReadFile ''/app/node_modules/V.tsx''], Returned [compV])"
  by code_simp

text \<open>
  C4, as worded, fails. The claim speaks of any directory whose name contains the
  marker. The walk tests the names of the directory entries it meets
  (\<^verbatim>\<open>fileName.includes("node_modules")\<close>) and never the directory it is started on:
  started on \<^verbatim>\<open>/app/node_modules\<close> with the option set, it reads the file under
  that directory and returns its component.
\<close>

theorem vendor_named_root_counterexample:
  "args_ignoreNodeModules (args vendorRootEnv) \<and>
   orElse (args_path (args vendorRootEnv)) (cwd vendorRootEnv) = joinPath ''/app'' [''node_modules''] \<and>
   includesStr ''node_modules'' ''node_modules'' \<and>
   path compV = joinPath ''/app'' [''node_modules'', ''V.tsx''] \<and>
   ReadFile (path compV)
     \<in> set (fst (getComponentsFromDir vendorRootEnv exampleFs 3
                    (orElse (args_path (args vendorRootEnv)) (cwd vendorRootEnv)) False)) \<and>
   snd (getComponentsFromDir vendorRootEnv exampleFs 3
          (orElse (args_path (args vendorRootEnv)) (cwd vendorRootEnv)) False) = Returned [compV]"
proof -
  have a: "args_ignoreNodeModules (args vendorRootEnv)"
    by (simp add: vendorRootEnv_def exampleEnv_def)
  have b: "orElse (args_path (args vendorRootEnv)) (cwd vendorRootEnv) = ''/app/node_modules''"
    by (simp add: vendorRootEnv_def orElse_def truthy_def)
  have c: "path compV = ''/app/node_modules/V.tsx''" by (simp add: compV_def)
  show ?thesis unfolding b c by (simp add: a vendorRootWalk)
qed

text \<open>
  C4, amended: with \<^verbatim>\<open>ignoreNodeModules\<close> set, take any path \<open>q\<close> below the
  listed directory that passes through a directory entry, met below the listed
  directory, whose name contains \<^verbatim>\<open>node_modules\<close>, at any depth (\<open>parents\<close> are
  the directories between the listed directory and the vendor directory, \<open>inside\<close>
  the path below it). The walk makes no file-system call on \<open>q\<close> (it is not listed,
  not examined, not read) and returns no component with path \<open>q\<close>. The name of the
  listed directory itself is not tested. Names of directory entries contain no
  \<^verbatim>\<open>/\<close>.
\<close>

theorem vendor_directories_untouched:
  assumes ignore: "args_ignoreNodeModules (args e)"
    and names: "\<forall>f \<in> entryNames fs. CHR ''/'' \<notin> set f"
    and comps: "\<forall>s \<in> set (parents @ vendor # inside). CHR ''/'' \<notin> set s"
    and vendor: "includesStr vendor ''node_modules''"
    and inside: "inside \<noteq> []"
    and run: "getComponentsFromDir e fs fuel p isSubfolder = (tr, out)"
    and q: "q = joinPath (useFullPath e p isSubfolder) (parents @ vendor # inside)"
  shows "Readdir q \<notin> set tr \<and> Stat q \<notin> set tr \<and> ReadFile q \<notin> set tr \<and>
         (\<forall>cs. out = Returned cs \<longrightarrow> q \<notin> path ` set cs)"
proof -
  from getComponentsFromDir_clean [OF ignore, of fs p isSubfolder fuel] run
  have clean: "cleanWalk fs (useFullPath e p isSubfolder) (tr, out)" by simp
  have no: "\<not> reached fs (useFullPath e p isSubfolder) q"
    unfolding q by (rule reached_not_below_vendor [OF names comps vendor inside])
  from clean no have ev: "\<And>ev. ev \<in> set tr \<Longrightarrow> effectPath ev \<noteq> Some q"
    unfolding cleanWalk_def by auto
  from clean no have "\<forall>cs. out = Returned cs \<longrightarrow> q \<notin> path ` set cs"
    unfolding cleanWalk_def by auto
  with ev [of "Readdir q"] ev [of "Stat q"] ev [of "ReadFile q"] show ?thesis by auto
qed

theorem vendor_directories_untouched_witness:
  "args_ignoreNodeModules (args exampleEnv) \<and>
   includesStr ''node_modules'' ''node_modules'' \<and>
   readFileSync exampleFs ''/app/node_modules/V.tsx'' = Inr ''V = <Bar />'' \<and>
   Stat ''/app/node_modules'' \<in> set (fst (getComponentsFromDir exampleEnv exampleFs 3 ''/app'' False)) \<and>
   Readdir ''/app/node_modules/V.tsx'' \<notin> set (fst (getComponentsFromDir exampleEnv exampleFs 3 ''/app'' False)) \<and>
   Stat ''/app/node_modules/V.tsx'' \<notin> set (fst (getComponentsFromDir exampleEnv exampleFs 3 ''/app'' False)) \<and>
   ReadFile ''/app/node_modules/V.tsx'' \<notin> set (fst (getComponentsFromDir exampleEnv exampleFs 3 ''/app'' False)) \<and>
   ''/app/node_modules/V.tsx'' \<notin> path ` set [compFoo, compBar, compBaz]"
proof -
  have ignore: "args_ignoreNodeModules (args exampleEnv)" by (simp add: exampleEnv_def)
  have comps: "\<forall>s \<in> set ([] @ ''node_modules'' # [''V.tsx'']). CHR ''/'' \<notin> set s" by simp
  have vendor: "includesStr ''node_modules'' ''node_modules''" by simp
  have inside: "[''V.tsx''] \<noteq> []" by simp
  have q: "''/app/node_modules/V.tsx'' =
           joinPath (useFullPath exampleEnv ''/app'' False) ([] @ ''node_modules'' # [''V.tsx''])"
    by (simp add: useFullPath_def exampleEnv_def)
  have there: "readFileSync exampleFs ''/app/node_modules/V.tsx'' = Inr ''V = <Bar />''"
    by (simp add: exampleFs_def)
  have stat: "Stat ''/app/node_modules'' \<in> set (fst (getComponentsFromDir exampleEnv exampleFs 3 ''/app'' False))"
    by (simp add: exampleWalk exampleTrace_def)
  from vendor_directories_untouched [OF ignore exampleFs_names comps vendor inside exampleWalk q]
  have "Readdir ''/app/node_modules/V.tsx'' \<notin> set exampleTrace \<and>
        Stat ''/app/node_modules/V.tsx'' \<notin> set exampleTrace \<and>
        ReadFile ''/app/node_modules/V.tsx'' \<notin> set exampleTrace \<and>
        ''/app/node_modules/V.tsx'' \<notin> path ` set [compFoo, compBar, compBaz]"
    by simp
  with ignore vendor there stat show ?thesis by (simp only: exampleWalk fst_conv simp_thms)
qed

subsection \<open>C5: one component per accepted file, none per rejected file\<close>

text \<open>
  C5: the walk meets an entry that is a regular file, passes the file filter and can be
  read. When the parser returns a non-empty display name, the step appends exactly one
  component, with that name, the path of the file and the text of the file unchanged;
  when the parser fails, or returns no name or the empty name, the step appends
  nothing. In both cases nothing is thrown, and the \<^verbatim>\<open>reduce\<close> goes on with the
  remaining entries.
\<close>

theorem eligible_file_step:
  fixes e fs dir f
  defines "filePath \<equiv> dir @ ''/'' @ f"
  assumes regular: "isDirectory fs filePath = Inr False"
    and eligible: "isAvailableFile (utils e) f"
    and readable: "readFileSync fs filePath = Inr fileContent"
  shows "foldl (reduceCallback e fs recurse dir) (tr, Returned acc) (f # files) =
         foldl (reduceCallback e fs recurse dir)
           (tr @ [Stat filePath, ReadFile filePath],
            Returned (acc @
              (case reactDocs_parse e fileContent of
                 ParseError \<Rightarrow> []
               | Documentation None \<Rightarrow> []
               | Documentation (Some displayName) \<Rightarrow>
                   if displayName = [] then []
                   else [\<lparr>name = displayName, path = filePath, content = fileContent\<rparr>])))
           files"
  using assms
  by (simp add: reduceCallback_def getComponentName_def orElse_def truthy_def Let_def
           split: parsed.splits option.splits)

theorem eligible_file_step_witness:
  "isDirectory exampleFs (''/app/lib'' @ ''/'' @ ''B.tsx'') = Inr False \<and>
   isAvailableFile (utils exampleEnv) ''B.tsx'' \<and>
   readFileSync exampleFs (''/app/lib'' @ ''/'' @ ''B.tsx'') = Inr ''Bar = <Foo />'' \<and>
   isDirectory exampleFs (''/app/lib'' @ ''/'' @ ''bad.tsx'') = Inr False \<and>
   isAvailableFile (utils exampleEnv) ''bad.tsx'' \<and>
   readFileSync exampleFs (''/app/lib'' @ ''/'' @ ''bad.tsx'') = Inr ''!'' \<and>
   foldl (reduceCallback exampleEnv exampleFs
            (\<lambda>filePath. getComponentsFromDir exampleEnv exampleFs 0 filePath True) ''/app/lib'')
     ([Readdir ''/app/lib''], Returned []) [''B.tsx'', ''bad.tsx'']
   = ([Readdir ''/app/lib'', Stat ''/app/lib/B.tsx'', ReadFile ''/app/lib/B.tsx'',
       Stat ''/app/lib/bad.tsx'', ReadFile ''/app/lib/bad.tsx''],
      Returned [compBar])"
proof -
  have b1: "isDirectory exampleFs (''/app/lib'' @ ''/'' @ ''B.tsx'') = Inr False"
    and b2: "isAvailableFile (utils exampleEnv) ''B.tsx''"
    and b3: "readFileSync exampleFs (''/app/lib'' @ ''/'' @ ''B.tsx'') = Inr ''Bar = <Foo />''"
    and c1: "isDirectory exampleFs (''/app/lib'' @ ''/'' @ ''bad.tsx'') = Inr False"
    and c2: "isAvailableFile (utils exampleEnv) ''bad.tsx''"
    and c3: "readFileSync exampleFs (''/app/lib'' @ ''/'' @ ''bad.tsx'') = Inr ''!''"
    by (simp_all add: exampleFs_def exampleEnv_def exampleUtils_def suffix_def)
  have p1: "reactDocs_parse exampleEnv ''Bar = <Foo />'' = Documentation (Some ''Bar'')"
    and p2: "reactDocs_parse exampleEnv ''!'' = ParseError"
    by (simp_all add: exampleEnv_def exampleParse_def)
  note accepted = eligible_file_step [OF b1 b2 b3,
      of "\<lambda>filePath. getComponentsFromDir exampleEnv exampleFs 0 filePath True"
         "[Readdir ''/app/lib'']" "[]" "[]", unfolded p1, simplified]
  note rejected = eligible_file_step [OF c1 c2 c3,
      of "\<lambda>filePath. getComponentsFromDir exampleEnv exampleFs 0 filePath True"
         "[Readdir ''/app/lib'', Stat ''/app/lib/B.tsx'', ReadFile ''/app/lib/B.tsx'']"
         "[\<lparr>name = ''Bar'', path = ''/app/lib/B.tsx'', content = ''Bar = <Foo />''\<rparr>]" "[]",
      unfolded p2, simplified]
  have "foldl (reduceCallback exampleEnv exampleFs
            (\<lambda>filePath. getComponentsFromDir exampleEnv exampleFs 0 filePath True) ''/app/lib'')
     ([Readdir ''/app/lib''], Returned []) [''B.tsx'', ''bad.tsx'']
   = ([Readdir ''/app/lib'', Stat ''/app/lib/B.tsx'', ReadFile ''/app/lib/B.tsx'',
       Stat ''/app/lib/bad.tsx'', ReadFile ''/app/lib/bad.tsx''],
      Returned [compBar])"
    by (simp add: accepted rejected compBar_def)
  with b1 b2 b3 c1 c2 c3 show ?thesis by (intro conjI)
qed

subsection \<open>What a walk returns and how it fails\<close>

lemma failFast_appendWalk:
  assumes "failFast fs (tr, Returned acc)" "failFast fs w"
  shows "failFast fs (appendWalk tr acc w)"
proof (cases "snd w")
  case (Thrown err)
  with assms(2) have "fst w \<noteq> []" by (simp add: failFast_def)
  with assms Thrown show ?thesis
    by (auto simp add: failFast_def appendWalk_def butlast_append)
qed (use assms in \<open>auto simp add: failFast_def appendWalk_def\<close>)

lemma failFast_Stat_Cons:
  assumes "isDirectory fs p = Inr b" "failFast fs w"
  shows "failFast fs (Stat p # fst w, snd w)"
  using assms by (cases "snd w") (auto simp add: failFast_def)

lemma getComponentsFromDir_failFast:
  "failFast fs (getComponentsFromDir e fs fuel p isSubfolder)"
proof (induction fuel arbitrary: p isSubfolder)
  case 0
  show ?case by (simp add: failFast_def)
next
  case (Suc fuel)
  define dir where "dir = useFullPath e p isSubfolder"
  show ?case
  proof (cases "readdirSync fs dir")
    case (Inl err)
    then show ?thesis by (simp add: dir_def [symmetric] failFast_def)
  next
    case (Inr files)
    have "failFast fs
            (foldl (reduceCallback e fs (\<lambda>filePath. getComponentsFromDir e fs fuel filePath True) dir)
               ([Readdir dir], Returned []) files)"
    proof (rule walk_fold_invariant)
      show "failFast fs ([Readdir dir], Returned [])"
        using Inr by (simp add: failFast_def)
    next
      fix tr acc f
      assume st: "failFast fs (tr, Returned acc)"
      have "failFast fs
              (entryWalk e fs (\<lambda>filePath. getComponentsFromDir e fs fuel filePath True) dir f)"
      proof (cases e fs "\<lambda>filePath. getComponentsFromDir e fs fuel filePath True" dir f
               rule: entryWalk_cases)
        case nested
        with Suc.IH [of "dir @ ''/'' @ f" True] show ?thesis
          by (simp add: failFast_Stat_Cons)
      qed (simp_all add: failFast_def)
      with st show "failFast fs
          (appendWalk tr acc (entryWalk e fs (\<lambda>filePath. getComponentsFromDir e fs fuel filePath True) dir f))"
        by (rule failFast_appendWalk)
    qed
    with Inr show ?thesis by (simp add: dir_def [symmetric])
  qed
qed

lemma failFast_failure:
  assumes "failFast fs (tr, out)" "ev \<in> set tr" "failure fs ev = Some err"
  shows "out = Thrown err \<and> last tr = ev"
proof (cases out)
  case (Thrown err')
  with assms(1) have tr: "tr \<noteq> []" "failure fs (last tr) = Some err'"
    "\<forall>ev \<in> set (butlast tr). failure fs ev = None"
    by (simp_all add: failFast_def)
  from tr(1) have "tr = butlast tr @ [last tr]" by simp
  then have "set tr = set (butlast tr) \<union> {last tr}"
    by (metis Un_insert_right list.simps(15) set_append sup_bot.right_neutral list.set(1))
  with assms(2,3) tr(3) have "ev = last tr" by auto
  with tr(2) assms(3) Thrown show ?thesis by simp
qed (use assms in \<open>auto simp add: failFast_def\<close>)

lemma prompts_simps [simp]:
  "prompts [] = []" "prompts (tr @ tr') = prompts tr @ prompts tr'"
  "prompts (Prompt m # tr) = m # prompts tr"
  "prompts (Readdir p # tr) = prompts tr" "prompts (Stat p # tr) = prompts tr"
  "prompts (ReadFile p # tr) = prompts tr" "prompts (ConsoleLog s # tr) = prompts tr"
  "prompts (SpinnerStart s # tr) = prompts tr" "prompts (SpinnerStop # tr) = prompts tr"
  "prompts (Delete p # tr) = prompts tr"
  by (simp_all add: prompts_def)

lemma deletions_simps [simp]:
  "deletions [] = []" "deletions (tr @ tr') = deletions tr @ deletions tr'"
  "deletions (Delete p # tr) = p # deletions tr"
  "deletions (Readdir p # tr) = deletions tr" "deletions (Stat p # tr) = deletions tr"
  "deletions (ReadFile p # tr) = deletions tr" "deletions (ConsoleLog s # tr) = deletions tr"
  "deletions (SpinnerStart s # tr) = deletions tr" "deletions (SpinnerStop # tr) = deletions tr"
  "deletions (Prompt m # tr) = deletions tr"
  by (simp_all add: deletions_def)

lemma fromFiles_appendWalk:
  "fromFiles e fs (tr, Returned acc) \<Longrightarrow> fromFiles e fs w \<Longrightarrow> fromFiles e fs (appendWalk tr acc w)"
  unfolding fromFiles_def appendWalk_def by (cases "snd w") auto

lemma getComponentsFromDir_fromFiles:
  "fromFiles e fs (getComponentsFromDir e fs fuel p isSubfolder)"
proof (induction fuel arbitrary: p isSubfolder)
  case 0
  show ?case by (simp add: fromFiles_def)
next
  case (Suc fuel)
  define dir where "dir = useFullPath e p isSubfolder"
  show ?case
  proof (cases "readdirSync fs dir")
    case (Inl err)
    then show ?thesis by (simp add: dir_def [symmetric] fromFiles_def)
  next
    case (Inr files)
    have "fromFiles e fs
            (foldl (reduceCallback e fs (\<lambda>filePath. getComponentsFromDir e fs fuel filePath True) dir)
               ([Readdir dir], Returned []) files)"
    proof (rule walk_fold_invariant)
      show "fromFiles e fs ([Readdir dir], Returned [])"
        by (simp add: fromFiles_def)
    next
      fix tr acc f
      assume st: "fromFiles e fs (tr, Returned acc)"
      have "fromFiles e fs
              (entryWalk e fs (\<lambda>filePath. getComponentsFromDir e fs fuel filePath True) dir f)"
      proof (cases e fs "\<lambda>filePath. getComponentsFromDir e fs fuel filePath True" dir f
               rule: entryWalk_cases)
        case nested
        with Suc.IH [of "dir @ ''/'' @ f" True] show ?thesis
          unfolding fromFiles_def by auto
      qed (simp_all add: fromFiles_def)
      with st show "fromFiles e fs
          (appendWalk tr acc (entryWalk e fs (\<lambda>filePath. getComponentsFromDir e fs fuel filePath True) dir f))"
        by (rule fromFiles_appendWalk)
    qed
    with Inr show ?thesis by (simp add: dir_def [symmetric])
  qed
qed

lemma fsOnly_prompts_deletions:
  "\<forall>ev \<in> set tr. effectPath ev \<noteq> None \<Longrightarrow> prompts tr = [] \<and> deletions tr = []"
proof (induction tr)
  case Nil
  show ?case by simp
next
  case (Cons ev tr)
  then show ?case by (cases ev) simp_all
qed

section \<open>Properties of the deletion workflow\<close>

lemma deleteComponent_present:
  assumes "isDirectory (disk w) (path c) = Inr False"
  shows "\<exists>w'. deleteComponent c w = (w', Returned ()) \<and>
           effects w' = effects w @ [Delete (path c)] \<and>
           isDirectory (disk w') = (isDirectory (disk w))(path c := Inl ENOENT)"
  using assms by (simp add: deleteComponent_def deleteFile_def say_def)

lemma deleteComponents_all:
  assumes "distinct (map path cs)" "\<forall>c \<in> set cs. isDirectory (disk w) (path c) = Inr False"
  shows "\<exists>w'. deleteComponents cs w = (w', Returned ()) \<and>
           effects w' = effects w @ map (\<lambda>c. Delete (path c)) cs \<and>
           isDirectory (disk w') =
             (\<lambda>p. if p \<in> path ` set cs then Inl ENOENT else isDirectory (disk w) p)"
  using assms
proof (induction cs arbitrary: w)
  case Nil
  show ?case by simp
next
  case (Cons c cs)
  from Cons.prems(2) have "isDirectory (disk w) (path c) = Inr False" by simp
  from deleteComponent_present [OF this] obtain w1 where w1:
    "deleteComponent c w = (w1, Returned ())" "effects w1 = effects w @ [Delete (path c)]"
    "isDirectory (disk w1) = (isDirectory (disk w))(path c := Inl ENOENT)" by blast
  from Cons.prems have rest: "distinct (map path cs)"
    "\<forall>d \<in> set cs. isDirectory (disk w1) (path d) = Inr False"
    by (auto simp add: w1(3) image_iff)
  from Cons.IH [OF rest] obtain w' where w':
    "deleteComponents cs w1 = (w', Returned ())"
    "effects w' = effects w1 @ map (\<lambda>c. Delete (path c)) cs"
    "isDirectory (disk w') =
       (\<lambda>p. if p \<in> path ` set cs then Inl ENOENT else isDirectory (disk w1) p)" by blast
  have "isDirectory (disk w') =
          (\<lambda>p. if p \<in> path ` set (c # cs) then Inl ENOENT else isDirectory (disk w) p)"
    by (rule ext) (simp add: w'(3) w1(3))
  with w1(1,2) w'(1,2) show ?case by simp
qed

lemma deleteComponent_frame:
  "p \<noteq> path c \<Longrightarrow> isDirectory (disk (fst (deleteComponent c w))) p = isDirectory (disk w) p \<and>
     readFileSync (disk (fst (deleteComponent c w))) p = readFileSync (disk w) p"
  by (simp add: deleteComponent_def deleteFile_def say_def split: sum.splits)

lemma confirmDelete_frame:
  "p \<notin> path ` set cs \<Longrightarrow>
     isDirectory (disk (fst (confirmDelete e cs w))) p = isDirectory (disk w) p \<and>
     readFileSync (disk (fst (confirmDelete e cs w))) p = readFileSync (disk w) p"
proof (induction cs arbitrary: w)
  case Nil
  show ?case by simp
next
  case (Cons c cs)
  define w2 where "w2 = say (Prompt (''Do you want to delete '' @ path c @ '' ?''))
            (if args_verbose (args e) then say (ConsoleLog (content c)) w else w)"
  have w2: "disk w2 = disk w" by (simp add: w2_def say_def)
  from Cons.prems have p: "p \<noteq> path c" "p \<notin> path ` set cs" by auto
  show ?case
  proof (cases "confirm e (effects w2)")
    case False
    then have "confirmDelete e (c # cs) w = confirmDelete e cs w2"
      by (simp add: w2_def Let_def)
    with Cons.IH [OF p(2), of w2] w2 show ?thesis by simp
  next
    case True
    obtain w3 out where del: "deleteComponent c w2 = (w3, out)" by (cases "deleteComponent c w2")
    from deleteComponent_frame [OF p(1), of w2] del w2
    have w3: "isDirectory (disk w3) p = isDirectory (disk w) p"
      "readFileSync (disk w3) p = readFileSync (disk w) p" by simp_all
    show ?thesis
    proof (cases out)
      case (Returned u)
      with True del have "confirmDelete e (c # cs) w = confirmDelete e cs w3"
        by (simp add: w2_def Let_def)
      with Cons.IH [OF p(2), of w3] w3 show ?thesis by simp
    next
      case (Thrown err)
      with True del have "confirmDelete e (c # cs) w = (w3, Thrown err)"
        by (simp add: w2_def Let_def)
      with w3 show ?thesis by simp
    next
      case OutOfFuel
      with True del have "confirmDelete e (c # cs) w = (w3, OutOfFuel)"
        by (simp add: w2_def Let_def)
      with w3 show ?thesis by simp
    qed
  qed
qed

subsection \<open>C7: forced mode\<close>

text \<open>
  C7: with \<^verbatim>\<open>force\<close> set, and the walk returning components with distinct
  paths, the run returns, asks no question, hands the file of every unused component to
  the deletion helper, in order, and afterwards none of these files is on disk.
\<close>

theorem forced_mode_deletes_all_unprompted:
  assumes force: "args_force (args e)"
    and walk: "getComponentsFromDir e (disk w) fuel (orElse (args_path (args e)) (cwd e)) False
                 = (tr, Returned components)"
    and unique: "distinct (map path components)"
  shows "snd (main e fuel w) = Returned () \<and>
         prompts (effects (fst (main e fuel w))) = prompts (effects w) \<and>
         deletions (effects (fst (main e fuel w))) =
           deletions (effects w) @ map path (getUnusedComponents (utils e) components) \<and>
         (\<forall>z \<in> set (getUnusedComponents (utils e) components).
            isDirectory (disk (fst (main e fuel w))) (path z) = Inl ENOENT)"
proof -
  define zombies where "zombies = getUnusedComponents (utils e) components"
  have zs: "zombies = filter (\<lambda>c. verifyImport (utils e) c components \<noteq> None) components"
    unfolding zombies_def by (simp add: getUnusedComponents_filter)
  from getComponentsFromDir_fromFiles [of e "disk w" fuel "orElse (args_path (args e)) (cwd e)" False] walk
  have ff: "fromFiles e (disk w) (tr, Returned components)" by simp
  then have quiet: "prompts tr = []" "deletions tr = []"
    using fsOnly_prompts_deletions [of tr] by (simp_all add: fromFiles_def)
  from ff have files: "\<forall>c \<in> set components. isDirectory (disk w) (path c) = Inr False"
    by (simp add: fromFiles_def)
  from zs have "set zombies \<subseteq> set components" by auto
  with files have present: "\<forall>c \<in> set zombies. isDirectory (disk w) (path c) = Inr False" by blast
  from unique have dist: "distinct (map path zombies)"
    unfolding zs by (rule distinct_map_filter)
  define w1 where "w1 =
    (if args_verbose (args e) \<and> args_absoluteImports (args e) then
       (if truthy (args_path (args e)) then
          say (ConsoleLog (''--absoluteImports AND --path conflict.'' @ [CHR 0x09] @
                 '' Will use path: '' @ [CHR 0x27] @ the (args_path (args e)) @ [CHR 0x27] @
                 '' instead of absoluteImports'')) w
        else
          say (ConsoleLog (''--absoluteImports. '' @ [CHR 0x09] @ ''Will use baseUrl: '' @
                 [CHR 0x27] @ baseUrl (utils e) @ [CHR 0x27])) w)
     else w)"
  define w2 where "w2 = say (SpinnerStart ''Searching zombie components'') w1"
  define w4 where "w4 =
    say (ConsoleLog (toString (length zombies) @ '' unused components found! \<newline>''))
      (say SpinnerStop
        (say (ConsoleLog (''\<newline>\<newline>'' @ toString (length components) @
                '' components found! \<newline>''))
           (w2\<lparr>effects := effects w2 @ tr\<rparr>)))"
  have run: "main e fuel w = deleteComponents zombies w4"
    using walk force by (simp add: main_def Let_def say_def w4_def w2_def w1_def zombies_def)
  have w4: "disk w4 = disk w" "prompts (effects w4) = prompts (effects w)"
    "deletions (effects w4) = deletions (effects w)"
    by (simp_all add: w4_def w2_def w1_def say_def quiet)
  from present w4(1) have "\<forall>c \<in> set zombies. isDirectory (disk w4) (path c) = Inr False" by simp
  from deleteComponents_all [OF dist this] obtain w' where w':
    "deleteComponents zombies w4 = (w', Returned ())"
    "effects w' = effects w4 @ map (\<lambda>c. Delete (path c)) zombies"
    "isDirectory (disk w') =
       (\<lambda>p. if p \<in> path ` set zombies then Inl ENOENT else isDirectory (disk w4) p)" by blast
  have "prompts (map (\<lambda>c. Delete (path c)) zs) = []"
    "deletions (map (\<lambda>c. Delete (path c)) zs) = map path zs" for zs :: "Component list"
    by (induction zs) simp_all
  with run w' w4 show ?thesis
    by (simp add: zombies_def [symmetric])
qed

theorem forced_mode_deletes_all_unprompted_witness:
  "args_force (args forcedEnv) \<and>
   getUnusedComponents (utils forcedEnv) [compFoo, compBar, compBaz] = [compBar, compBaz] \<and>
   snd (main forcedEnv 3 exampleWorld) = Returned () \<and>
   prompts (effects (fst (main forcedEnv 3 exampleWorld))) = [] \<and>
   deletions (effects (fst (main forcedEnv 3 exampleWorld))) = [''/app/lib/B.tsx'', ''/app/lib/C.tsx''] \<and>
   isDirectory (disk (fst (main forcedEnv 3 exampleWorld))) ''/app/lib/B.tsx'' = Inl ENOENT \<and>
   isDirectory (disk (fst (main forcedEnv 3 exampleWorld))) ''/app/lib/C.tsx'' = Inl ENOENT"
proof -
  have force: "args_force (args forcedEnv)" by (simp add: forcedEnv_def)
  have start: "orElse (args_path (args forcedEnv)) (cwd forcedEnv) = ''/app''"
    by (simp add: forcedEnv_def exampleEnv_def orElse_def truthy_def)
  have walk: "getComponentsFromDir forcedEnv (disk exampleWorld) 3
                (orElse (args_path (args forcedEnv)) (cwd forcedEnv)) False
              = (exampleTrace, Returned [compFoo, compBar, compBaz])"
    by (simp add: start exampleWorld_def forcedWalk)
  have unique: "distinct (map path [compFoo, compBar, compBaz])"
    by (simp add: compFoo_def compBar_def compBaz_def)
  have zombies: "getUnusedComponents (utils forcedEnv) [compFoo, compBar, compBaz] = [compBar, compBaz]"
    by (simp add: forcedEnv_def exampleEnv_def exampleZombies)
  have none: "prompts (effects exampleWorld) = []" "deletions (effects exampleWorld) = []"
    by (simp_all add: exampleWorld_def)
  have paths: "map path [compBar, compBaz] = [''/app/lib/B.tsx'', ''/app/lib/C.tsx'']"
    by (simp add: compBar_def compBaz_def)
  note forced = forced_mode_deletes_all_unprompted [OF force walk unique, unfolded zombies none paths, simplified]
  from forced have gone:
    "isDirectory (disk (fst (main forcedEnv 3 exampleWorld))) (path compBar) = Inl ENOENT"
    "isDirectory (disk (fst (main forcedEnv 3 exampleWorld))) (path compBaz) = Inl ENOENT"
    by simp_all
  have "path compBar = ''/app/lib/B.tsx''" "path compBaz = ''/app/lib/C.tsx''"
    by (simp_all add: compBar_def compBaz_def)
  with gone have
    "isDirectory (disk (fst (main forcedEnv 3 exampleWorld))) ''/app/lib/B.tsx'' = Inl ENOENT"
    "isDirectory (disk (fst (main forcedEnv 3 exampleWorld))) ''/app/lib/C.tsx'' = Inl ENOENT"
    by simp_all
  with forced force zombies show ?thesis by simp
qed

subsection \<open>C8: a declined item\<close>

text \<open>
  C8: in the interactive loop, when the user answers no to the question about a
  component, the loop goes on with the remaining components from a world that differs
  only by what was shown (the content, if verbose, and the question): the disk is the
  same and no file has been handed to the deletion helper. Unless a later item of the
  list has the same path, the file is on disk at the end of the loop as it was before.
\<close>

theorem declined_item_is_kept:
  fixes e component w
  defines "asked \<equiv> say (Prompt (''Do you want to delete '' @ path component @ '' ?''))
                      (if args_verbose (args e) then say (ConsoleLog (content component)) w else w)"
  assumes declined: "\<not> confirm e (effects asked)"
  shows "confirmDelete e (component # components) w = confirmDelete e components asked \<and>
         disk asked = disk w \<and>
         deletions (effects asked) = deletions (effects w) \<and>
         (path component \<notin> path ` set components \<longrightarrow>
            isDirectory (disk (fst (confirmDelete e (component # components) w))) (path component)
              = isDirectory (disk w) (path component) \<and>
            readFileSync (disk (fst (confirmDelete e (component # components) w))) (path component)
              = readFileSync (disk w) (path component))"
proof -
  have step: "confirmDelete e (component # components) w = confirmDelete e components asked"
    using declined by (simp add: asked_def Let_def)
  have same: "disk asked = disk w" "deletions (effects asked) = deletions (effects w)"
    by (simp_all add: asked_def say_def)
  from confirmDelete_frame [of "path component" components e asked] same(1) step
  have "path component \<notin> path ` set components \<longrightarrow>
            isDirectory (disk (fst (confirmDelete e (component # components) w))) (path component)
              = isDirectory (disk w) (path component) \<and>
            readFileSync (disk (fst (confirmDelete e (component # components) w))) (path component)
              = readFileSync (disk w) (path component)"
    by simp
  with step same show ?thesis by simp
qed

theorem declined_item_is_kept_witness:
  "\<not> confirm exampleEnv [Prompt ''Do you want to delete /app/lib/C.tsx ?''] \<and>
   confirmDelete exampleEnv [compBaz, compBar] exampleWorld
     = confirmDelete exampleEnv [compBar]
         (exampleWorld\<lparr>effects := [Prompt ''Do you want to delete /app/lib/C.tsx ?'']\<rparr>) \<and>
   deletions (effects (fst (confirmDelete exampleEnv [compBaz, compBar] exampleWorld)))
     = [''/app/lib/B.tsx''] \<and>
   isDirectory (disk (fst (confirmDelete exampleEnv [compBaz, compBar] exampleWorld))) ''/app/lib/C.tsx''
     = Inr False \<and>
   readFileSync (disk (fst (confirmDelete exampleEnv [compBaz, compBar] exampleWorld))) ''/app/lib/C.tsx''
     = Inr ''Baz = 2''"
proof -
  have quiet: "\<not> args_verbose (args exampleEnv)" by (simp add: exampleEnv_def)
  have asked: "say (Prompt (''Do you want to delete '' @ path compBaz @ '' ?''))
                 (if args_verbose (args exampleEnv) then say (ConsoleLog (content compBaz)) exampleWorld
                  else exampleWorld)
               = exampleWorld\<lparr>effects := [Prompt ''Do you want to delete /app/lib/C.tsx ?'']\<rparr>"
    by (simp add: quiet say_def exampleWorld_def compBaz_def)
  have no: "\<not> confirm exampleEnv [Prompt ''Do you want to delete /app/lib/C.tsx ?'']"
    by (simp add: exampleEnv_def)
  then have declined: "\<not> confirm exampleEnv (effects
      (say (Prompt (''Do you want to delete '' @ path compBaz @ '' ?''))
         (if args_verbose (args exampleEnv) then say (ConsoleLog (content compBaz)) exampleWorld
          else exampleWorld)))"
    unfolding asked by simp
  have other: "path compBaz \<notin> path ` set [compBar]"
    by (simp add: compBaz_def compBar_def)
  have rest: "deletions (effects (fst (confirmDelete exampleEnv [compBar]
         (exampleWorld\<lparr>effects := [Prompt ''Do you want to delete /app/lib/C.tsx ?'']\<rparr>))))
       = [''/app/lib/B.tsx'']"
    by code_simp
  have before: "isDirectory (disk exampleWorld) (path compBaz) = Inr False"
    "readFileSync (disk exampleWorld) (path compBaz) = Inr ''Baz = 2''"
    by (simp_all add: exampleWorld_def exampleFs_def compBaz_def)
  have target: "path compBaz = ''/app/lib/C.tsx''" by (simp add: compBaz_def)
  note kept = declined_item_is_kept [of exampleEnv compBaz exampleWorld "[compBar]",
      OF declined, unfolded asked]
  from kept have step: "confirmDelete exampleEnv [compBaz, compBar] exampleWorld
     = confirmDelete exampleEnv [compBar]
         (exampleWorld\<lparr>effects := [Prompt ''Do you want to delete /app/lib/C.tsx ?'']\<rparr>)"
    by (rule conjunct1)
  from kept [THEN conjunct2, THEN conjunct2, THEN conjunct2, THEN mp, OF other] have
    "isDirectory (disk (fst (confirmDelete exampleEnv [compBaz, compBar] exampleWorld))) (path compBaz)
       = isDirectory (disk exampleWorld) (path compBaz) \<and>
     readFileSync (disk (fst (confirmDelete exampleEnv [compBaz, compBar] exampleWorld))) (path compBaz)
       = readFileSync (disk exampleWorld) (path compBaz)" .
  then have
    "isDirectory (disk (fst (confirmDelete exampleEnv [compBaz, compBar] exampleWorld))) (path compBaz)
       = Inr False \<and>
     readFileSync (disk (fst (confirmDelete exampleEnv [compBaz, compBar] exampleWorld))) (path compBaz)
       = Inr ''Baz = 2''"
    by (simp only: before)
  then have present:
    "isDirectory (disk (fst (confirmDelete exampleEnv [compBaz, compBar] exampleWorld))) ''/app/lib/C.tsx''
       = Inr False \<and>
     readFileSync (disk (fst (confirmDelete exampleEnv [compBaz, compBar] exampleWorld))) ''/app/lib/C.tsx''
       = Inr ''Baz = 2''"
    by (simp only: target)
  from rest have "deletions (effects (fst (confirmDelete exampleEnv [compBaz, compBar] exampleWorld)))
     = [''/app/lib/B.tsx'']"
    unfolding step .
  with no step present show ?thesis by simp
qed

subsection \<open>C9: a file-system failure ends the run\<close>

text \<open>
  C9: when a call of the walk on the file system fails (a listing, a stat or a read),
  the walk throws that error, at that call, which is its last, and returns no component
  list. A run whose walk fails throws the same error at once: the failing call is the
  last thing it does, it asks no question, deletes nothing and leaves the disk as it
  was.
\<close>

theorem filesystem_failure_aborts:
  assumes run: "getComponentsFromDir e fs fuel p isSubfolder = (tr, out)"
    and ev: "ev \<in> set tr" and failed: "failure fs ev = Some err"
  shows "out = Thrown err \<and> last tr = ev \<and>
         (fs = disk w \<and> p = orElse (args_path (args e)) (cwd e) \<and> \<not> isSubfolder \<longrightarrow>
            snd (main e fuel w) = Thrown err \<and>
            last (effects (fst (main e fuel w))) = ev \<and>
            disk (fst (main e fuel w)) = disk w \<and>
            prompts (effects (fst (main e fuel w))) = prompts (effects w) \<and>
            deletions (effects (fst (main e fuel w))) = deletions (effects w))"
proof -
  from getComponentsFromDir_failFast [of fs e fuel p isSubfolder] run
  have "failFast fs (tr, out)" by simp
  from failFast_failure [OF this ev failed] have out: "out = Thrown err" "last tr = ev" by simp_all
  from ev have ne: "tr \<noteq> []" by auto
  from getComponentsFromDir_fromFiles [of e fs fuel p isSubfolder] run
  have quiet: "prompts tr = []" "deletions tr = []"
    using fsOnly_prompts_deletions [of tr] by (simp_all add: fromFiles_def)
  have "snd (main e fuel w) = Thrown err \<and>
            last (effects (fst (main e fuel w))) = ev \<and>
            disk (fst (main e fuel w)) = disk w \<and>
            prompts (effects (fst (main e fuel w))) = prompts (effects w) \<and>
            deletions (effects (fst (main e fuel w))) = deletions (effects w)"
    if "fs = disk w" "p = orElse (args_path (args e)) (cwd e)" "\<not> isSubfolder"
    using that run out ne quiet by (simp add: main_def Let_def say_def)
  with out show ?thesis by blast
qed

theorem filesystem_failure_aborts_witness:
  "ReadFile ''/app/lib/B.tsx'' \<in> set (fst (getComponentsFromDir exampleEnv brokenFs 3 ''/app'' False)) \<and>
   failure brokenFs (ReadFile ''/app/lib/B.tsx'') = Some EACCES \<and>
   snd (getComponentsFromDir exampleEnv brokenFs 3 ''/app'' False) = Thrown EACCES \<and>
   last (fst (getComponentsFromDir exampleEnv brokenFs 3 ''/app'' False)) = ReadFile ''/app/lib/B.tsx'' \<and>
   snd (main exampleEnv 3 \<lparr>disk = brokenFs, effects = []\<rparr>) = Thrown EACCES \<and>
   deletions (effects (fst (main exampleEnv 3 \<lparr>disk = brokenFs, effects = []\<rparr>))) = [] \<and>
   prompts (effects (fst (main exampleEnv 3 \<lparr>disk = brokenFs, effects = []\<rparr>))) = []"
proof -
  have run: "getComponentsFromDir exampleEnv brokenFs 3 ''/app'' False
       = (fst (getComponentsFromDir exampleEnv brokenFs 3 ''/app'' False),
          snd (getComponentsFromDir exampleEnv brokenFs 3 ''/app'' False))"
    by simp
  have ev: "ReadFile ''/app/lib/B.tsx'' \<in> set (fst (getComponentsFromDir exampleEnv brokenFs 3 ''/app'' False))"
    by code_simp
  have failed: "failure brokenFs (ReadFile ''/app/lib/B.tsx'') = Some EACCES"
    by (simp add: brokenFs_def)
  have start: "''/app'' = orElse (args_path (args exampleEnv)) (cwd exampleEnv)"
    by (simp add: exampleEnv_def orElse_def truthy_def)
  from filesystem_failure_aborts [OF run ev failed, of "\<lparr>disk = brokenFs, effects = []\<rparr>"] start
  have "snd (getComponentsFromDir exampleEnv brokenFs 3 ''/app'' False) = Thrown EACCES \<and>
   last (fst (getComponentsFromDir exampleEnv brokenFs 3 ''/app'' False)) = ReadFile ''/app/lib/B.tsx'' \<and>
   snd (main exampleEnv 3 \<lparr>disk = brokenFs, effects = []\<rparr>) = Thrown EACCES \<and>
   deletions (effects (fst (main exampleEnv 3 \<lparr>disk = brokenFs, effects = []\<rparr>))) = [] \<and>
   prompts (effects (fst (main exampleEnv 3 \<lparr>disk = brokenFs, effects = []\<rparr>))) = []"
    by simp
  with ev failed show ?thesis by (intro conjI) simp_all
qed

section \<open>Properties of a whole run\<close>

subsection \<open>The file-system calls of a run are those of its walk\<close>

text \<open>
  The deletion helpers and the interactive loop make no call that the walk makes, so the
  file-system calls a run adds are exactly the calls of the walk it starts, and the
  first of them lists the directory the walk is started on.
\<close>

lemma fsCalls_simps [simp]:
  "fsCalls [] = []" "fsCalls (tr @ tr') = fsCalls tr @ fsCalls tr'"
  "fsCalls (Readdir p # tr) = Readdir p # fsCalls tr" "fsCalls (Stat p # tr) = Stat p # fsCalls tr"
  "fsCalls (ReadFile p # tr) = ReadFile p # fsCalls tr" "fsCalls (ConsoleLog s # tr) = fsCalls tr"
  "fsCalls (SpinnerStart s # tr) = fsCalls tr" "fsCalls (SpinnerStop # tr) = fsCalls tr"
  "fsCalls (Prompt m # tr) = fsCalls tr" "fsCalls (Delete p # tr) = fsCalls tr"
  by (simp_all add: fsCalls_def)

lemma fsCalls_walk:
  "fsCalls (fst (getComponentsFromDir e fs fuel p isSubfolder)) = fst (getComponentsFromDir e fs fuel p isSubfolder)"
  using getComponentsFromDir_fromFiles [of e fs fuel p isSubfolder]
  by (simp add: fromFiles_def fsCalls_def)

lemma deleteComponent_effects:
  "effects (fst (deleteComponent c w)) = effects w @ [Delete (path c)]"
  by (simp add: deleteComponent_def say_def split: sum.splits)

lemma deleteComponents_effects:
  "\<exists>xs. effects (fst (deleteComponents cs w)) = effects w @ xs \<and> fsCalls xs = []"
proof (induction cs arbitrary: w)
  case Nil
  show ?case by simp
next
  case (Cons c cs)
  obtain w1 out where del: "deleteComponent c w = (w1, out)" by (cases "deleteComponent c w")
  with deleteComponent_effects [of c w] have w1: "effects w1 = effects w @ [Delete (path c)]" by simp
  show ?case
  proof (cases out)
    case (Returned u)
    from Cons.IH [of w1] obtain xs where
      "effects (fst (deleteComponents cs w1)) = effects w1 @ xs" "fsCalls xs = []" by auto
    with del Returned w1 show ?thesis by simp
  qed (use del w1 in simp_all)
qed

lemma confirmDelete_effects:
  "\<exists>xs. effects (fst (confirmDelete e cs w)) = effects w @ xs \<and> fsCalls xs = []"
proof (induction cs arbitrary: w)
  case Nil
  show ?case by simp
next
  case (Cons c cs)
  define w2 where "w2 = say (Prompt (''Do you want to delete '' @ path c @ '' ?''))
            (if args_verbose (args e) then say (ConsoleLog (content c)) w else w)"
  have "\<exists>ys. effects w2 = effects w @ ys \<and> fsCalls ys = []"
    by (simp add: w2_def say_def)
  then obtain ys where w2: "effects w2 = effects w @ ys" "fsCalls ys = []" by auto
  show ?case
  proof (cases "confirm e (effects w2)")
    case False
    then have step: "confirmDelete e (c # cs) w = confirmDelete e cs w2"
      by (simp add: w2_def Let_def)
    from Cons.IH [of w2] obtain xs where
      "effects (fst (confirmDelete e cs w2)) = effects w2 @ xs" "fsCalls xs = []" by auto
    with step w2 show ?thesis by simp
  next
    case True
    obtain w3 out where del: "deleteComponent c w2 = (w3, out)" by (cases "deleteComponent c w2")
    with deleteComponent_effects [of c w2] w2
    have w3: "effects w3 = effects w @ ys @ [Delete (path c)]" by simp
    show ?thesis
    proof (cases out)
      case (Returned u)
      with True del have step: "confirmDelete e (c # cs) w = confirmDelete e cs w3"
        by (simp add: w2_def Let_def)
      from Cons.IH [of w3] obtain xs where
        "effects (fst (confirmDelete e cs w3)) = effects w3 @ xs" "fsCalls xs = []" by auto
      with step w3 w2(2) show ?thesis by simp
    next
      case (Thrown err)
      with True del have "confirmDelete e (c # cs) w = (w3, Thrown err)"
        by (simp add: w2_def Let_def)
      with w3 w2(2) show ?thesis by simp
    next
      case OutOfFuel
      with True del have "confirmDelete e (c # cs) w = (w3, OutOfFuel)"
        by (simp add: w2_def Let_def)
      with w3 w2(2) show ?thesis by simp
    qed
  qed
qed

lemma disk_say [simp]: "disk (say ev w) = disk w"
  by (simp add: say_def)

lemma effects_say [simp]: "effects (say ev w) = effects w @ [ev]"
  by (simp add: say_def)

lemma main_fsCalls:
  "fsCalls (added w (fst (main e fuel w))) =
     fst (getComponentsFromDir e (disk w) fuel (orElse (args_path (args e)) (cwd e)) False)"
proof -
  define walked where
    "walked = getComponentsFromDir e (disk w) fuel (orElse (args_path (args e)) (cwd e)) False"
  obtain tr out where run: "walked = (tr, out)" by (cases walked)
  have calls: "fsCalls tr = tr"
    using fsCalls_walk [of e "disk w" fuel "orElse (args_path (args e)) (cwd e)" False] run
    by (simp add: walked_def)
  show ?thesis
  proof (cases out)
    case (Returned components)
    define w4 where "w4 =
      say (ConsoleLog (toString (length (getUnusedComponents (utils e) components)) @
             '' unused components found! \<newline>''))
        (say SpinnerStop
          (say (ConsoleLog (''\<newline>\<newline>'' @ toString (length components) @
                  '' components found! \<newline>''))
             ((say (SpinnerStart ''Searching zombie components'')
                (if args_verbose (args e) \<and> args_absoluteImports (args e) then
                   (if truthy (args_path (args e)) then
                      say (ConsoleLog (''--absoluteImports AND --path conflict.'' @ [CHR 0x09] @
                             '' Will use path: '' @ [CHR 0x27] @ the (args_path (args e)) @ [CHR 0x27] @
                             '' instead of absoluteImports'')) w
                    else
                      say (ConsoleLog (''--absoluteImports. '' @ [CHR 0x09] @ ''Will use baseUrl: '' @
                             [CHR 0x27] @ baseUrl (utils e) @ [CHR 0x27])) w)
                 else w))
              \<lparr>effects := effects (say (SpinnerStart ''Searching zombie components'')
                (if args_verbose (args e) \<and> args_absoluteImports (args e) then
                   (if truthy (args_path (args e)) then
                      say (ConsoleLog (''--absoluteImports AND --path conflict.'' @ [CHR 0x09] @
                             '' Will use path: '' @ [CHR 0x27] @ the (args_path (args e)) @ [CHR 0x27] @
                             '' instead of absoluteImports'')) w
                    else
                      say (ConsoleLog (''--absoluteImports. '' @ [CHR 0x09] @ ''Will use baseUrl: '' @
                             [CHR 0x27] @ baseUrl (utils e) @ [CHR 0x27])) w)
                 else w)) @ tr\<rparr>)))"
    have "\<exists>ys. effects w4 = effects w @ ys \<and> fsCalls ys = tr"
      by (simp add: w4_def calls)
    then obtain ys where w4: "effects w4 = effects w @ ys" "fsCalls ys = tr" by auto
    have shape: "main e fuel w =
      (if args_force (args e) then deleteComponents (getUnusedComponents (utils e) components) w4
       else (case confirmDelete e (getUnusedComponents (utils e) components) w4 of
               (w5, Returned u) \<Rightarrow> (say (ConsoleLog ''\<newline>Bye bye!'') w5, Returned ())
             | failed \<Rightarrow> failed))"
      using run Returned
      by (simp add: main_def Let_def w4_def walked_def [symmetric])
    show ?thesis
    proof (cases "args_force (args e)")
      case True
      from deleteComponents_effects [of "getUnusedComponents (utils e) components" w4]
      obtain xs where "effects (fst (deleteComponents (getUnusedComponents (utils e) components) w4))
                         = effects w4 @ xs" "fsCalls xs = []" by auto
      with True shape w4 run show ?thesis
        by (simp add: added_def walked_def [symmetric])
    next
      case False
      from confirmDelete_effects [of e "getUnusedComponents (utils e) components" w4]
      obtain xs where xs: "effects (fst (confirmDelete e (getUnusedComponents (utils e) components) w4))
                         = effects w4 @ xs" "fsCalls xs = []" by auto
      obtain w5 out5 where c: "confirmDelete e (getUnusedComponents (utils e) components) w4 = (w5, out5)"
        by (cases "confirmDelete e (getUnusedComponents (utils e) components) w4")
      with xs have w5: "effects w5 = effects w4 @ xs" by simp
      from False shape c w5 xs(2) w4 run show ?thesis
        by (cases out5) (simp_all add: added_def walked_def [symmetric])
    qed
  next
    case (Thrown err)
    with run calls show ?thesis
      by (simp add: main_def Let_def added_def walked_def [symmetric])
  next
    case OutOfFuel
    with run calls show ?thesis
      by (simp add: main_def Let_def added_def walked_def [symmetric])
  qed
qed

lemma first_listing:
  "fst (getComponentsFromDir e fs (Suc fuel) p isSubfolder) \<noteq> [] \<and>
   hd (fst (getComponentsFromDir e fs (Suc fuel) p isSubfolder)) = Readdir (useFullPath e p isSubfolder)"
proof -
  have hd_fold: "fst st \<noteq> [] \<Longrightarrow>
      fst (foldl (reduceCallback e fs recurse dir) st files) \<noteq> [] \<and>
      hd (fst (foldl (reduceCallback e fs recurse dir) st files)) = hd (fst st)"
    for st :: walk and recurse dir files
  proof (induction files arbitrary: st)
    case Nil
    then show ?case by simp
  next
    case (Cons f files)
    obtain tr out where st: "st = (tr, out)" by (cases st)
    have "fst (reduceCallback e fs recurse dir st f) \<noteq> [] \<and>
          hd (fst (reduceCallback e fs recurse dir st f)) = hd (fst st)"
    proof (cases out)
      case (Returned acc)
      with st Cons.prems show ?thesis by (simp add: reduceCallback_Returned appendWalk_def)
    qed (use st Cons.prems in \<open>simp_all add: reduceCallback_stopped\<close>)
    with Cons.IH [of "reduceCallback e fs recurse dir st f"] show ?case by simp
  qed
  show ?thesis
    using hd_fold [of "([Readdir (useFullPath e p isSubfolder)], Returned [])"]
    by (simp add: Let_def split: sum.splits)
qed

subsection \<open>C3: the scan root\<close>

lemma emptyPath_calls:
  "hd (fsCalls (added exampleWorld (fst (main emptyPathEnv 3 exampleWorld)))) = Readdir ''/app''"
  by code_simp

text \<open>
  C3, as worded, fails. The claim takes the explicit path verbatim whenever one is
  configured. The program tests \<^verbatim>\<open>args.path\<close> for truthiness
  (\<^verbatim>\<open>!args.path\<close>, \<^verbatim>\<open>args.path || process.cwd()\<close>), and the empty string is
  falsy: a run with the explicit path \<^verbatim>\<open>''\<close> lists the working directory first,
  not the explicit path.
\<close>

theorem explicit_path_verbatim_counterexample:
  "args_path (args emptyPathEnv) = Some [] \<and>
   specScanRoot emptyPathEnv = [] \<and>
   hd (fsCalls (added exampleWorld (fst (main emptyPathEnv 3 exampleWorld)))) = Readdir ''/app'' \<and>
   hd (fsCalls (added exampleWorld (fst (main emptyPathEnv 3 exampleWorld))))
     \<noteq> Readdir (specScanRoot emptyPathEnv)"
proof -
  have a: "args_path (args emptyPathEnv) = Some []" by (simp add: emptyPathEnv_def)
  then have b: "specScanRoot emptyPathEnv = []" by (simp add: specScanRoot_def)
  from a b emptyPath_calls show ?thesis by simp
qed

text \<open>
  C3, amended: the first file-system call of a run lists the scan root, which is the
  explicit path verbatim when one is configured and is not the empty string; otherwise
  (no path, or the empty string) the working directory with \<^verbatim>\<open>/baseUrl\<close> appended
  when \<^verbatim>\<open>absoluteImports\<close> is set; otherwise the working directory alone. A nested
  call lists the path it is given, and every directory a run lists besides the scan
  root is \<^verbatim>\<open>parent/name\<close> for a directory \<open>parent\<close> it listed and an entry
  \<open>name\<close> of it: the \<^verbatim>\<open>baseUrl\<close> is never appended again.
\<close>

theorem scan_root_resolution:
  fixes e w fuel
  defines "fallback \<equiv> if args_absoluteImports (args e) then cwd e @ ''/'' @ baseUrl (utils e)
                        else cwd e"
  defines "root \<equiv> case args_path (args e) of
                      None \<Rightarrow> fallback
                    | Some explicitPath \<Rightarrow> if explicitPath = [] then fallback else explicitPath"
  shows "fsCalls (added w (fst (main e (Suc fuel) w))) \<noteq> [] \<and>
         hd (fsCalls (added w (fst (main e (Suc fuel) w)))) = Readdir root \<and>
         plainListings (disk w) root (added w (fst (main e (Suc fuel) w))) \<and>
         useFullPath e q True = q"
proof -
  let ?p = "orElse (args_path (args e)) (cwd e)"
  let ?tr = "fst (getComponentsFromDir e (disk w) (Suc fuel) ?p False)"
  have root: "useFullPath e ?p False = root"
    by (simp add: root_def fallback_def useFullPath_def orElse_def truthy_def split: option.splits)
  have calls: "fsCalls (added w (fst (main e (Suc fuel) w))) = ?tr"
    by (rule main_fsCalls)
  have listings: "Readdir d \<in> set (added w (fst (main e (Suc fuel) w))) \<longleftrightarrow> Readdir d \<in> set ?tr" for d
    unfolding calls [symmetric] by (simp add: fsCalls_def)
  from getComponentsFromDir_plainListings [of "disk w" e ?p False "Suc fuel"]
  have "plainListings (disk w) root ?tr" unfolding root .
  then have "plainListings (disk w) root (added w (fst (main e (Suc fuel) w)))"
    unfolding plainListings_def listings .
  with first_listing [of e "disk w" fuel ?p False] show ?thesis
    unfolding calls root by simp
qed

lemma exampleMain_lists_lib:
  "Readdir ''/app/lib'' \<in> set (added exampleWorld (fst (main exampleEnv (Suc 2) exampleWorld)))"
  by code_simp

theorem scan_root_resolution_witness:
  "hd (fsCalls (added exampleWorld (fst (main exampleEnv (Suc 2) exampleWorld)))) = Readdir ''/app'' \<and>
   hd (fsCalls (added exampleWorld (fst (main absoluteEnv (Suc 2) exampleWorld)))) = Readdir ''/app/src'' \<and>
   hd (fsCalls (added exampleWorld (fst (main explicitEnv (Suc 2) exampleWorld)))) = Readdir ''/srv/ui'' \<and>
   hd (fsCalls (added exampleWorld (fst (main emptyPathEnv (Suc 2) exampleWorld)))) = Readdir ''/app'' \<and>
   Readdir ''/app/lib'' \<in> set (added exampleWorld (fst (main exampleEnv (Suc 2) exampleWorld))) \<and>
   (\<exists>parent files f.
      Readdir parent \<in> set (added exampleWorld (fst (main exampleEnv (Suc 2) exampleWorld))) \<and>
      readdirSync (disk exampleWorld) parent = Inr files \<and> f \<in> set files \<and>
      ''/app/lib'' = parent @ ''/'' @ f)"
proof -
  have a1: "args_path (args exampleEnv) = None" "\<not> args_absoluteImports (args exampleEnv)"
    "cwd exampleEnv = ''/app''"
    by (simp_all add: exampleEnv_def)
  have a2: "args_path (args absoluteEnv) = None" "args_absoluteImports (args absoluteEnv)"
    "cwd absoluteEnv = ''/app''" "baseUrl (utils absoluteEnv) = ''src''"
    by (simp_all add: absoluteEnv_def exampleEnv_def exampleUtils_def)
  have a3: "args_path (args explicitEnv) = Some ''/srv/ui''"
    by (simp add: explicitEnv_def)
  have a4: "args_path (args emptyPathEnv) = Some []" "\<not> args_absoluteImports (args emptyPathEnv)"
    "cwd emptyPathEnv = ''/app''"
    by (simp_all add: emptyPathEnv_def exampleEnv_def)
  note t1 = scan_root_resolution [of exampleWorld exampleEnv 2 "[]"]
  from t1 a1
  have r1: "hd (fsCalls (added exampleWorld (fst (main exampleEnv (Suc 2) exampleWorld)))) = Readdir ''/app''"
    by simp
  from scan_root_resolution [of exampleWorld absoluteEnv 2 "[]"] a2
  have r2: "hd (fsCalls (added exampleWorld (fst (main absoluteEnv (Suc 2) exampleWorld)))) = Readdir ''/app/src''"
    by simp
  from scan_root_resolution [of exampleWorld explicitEnv 2 "[]"] a3
  have r3: "hd (fsCalls (added exampleWorld (fst (main explicitEnv (Suc 2) exampleWorld)))) = Readdir ''/srv/ui''"
    by simp
  from scan_root_resolution [of exampleWorld emptyPathEnv 2 "[]"] a4
  have r4: "hd (fsCalls (added exampleWorld (fst (main emptyPathEnv (Suc 2) exampleWorld)))) = Readdir ''/app''"
    by simp
  from t1 a1 have "plainListings (disk exampleWorld) ''/app''
      (added exampleWorld (fst (main exampleEnv (Suc 2) exampleWorld)))"
    by simp
  then have "''/app/lib'' = ''/app'' \<or> (\<exists>parent files f.
      Readdir parent \<in> set (added exampleWorld (fst (main exampleEnv (Suc 2) exampleWorld))) \<and>
      readdirSync (disk exampleWorld) parent = Inr files \<and> f \<in> set files \<and>
      ''/app/lib'' = parent @ ''/'' @ f)"
    using exampleMain_lists_lib unfolding plainListings_def
    by (elim allE [of _ "''/app/lib''"] impE) assumption
  then have "\<exists>parent files f.
      Readdir parent \<in> set (added exampleWorld (fst (main exampleEnv (Suc 2) exampleWorld))) \<and>
      readdirSync (disk exampleWorld) parent = Inr files \<and> f \<in> set files \<and>
      ''/app/lib'' = parent @ ''/'' @ f"
    by simp
  with r1 r2 r3 r4 exampleMain_lists_lib show ?thesis by (intro conjI)
qed

end
